theory Spec2Isabelle
  imports Main "HOL-Library.Multiset"
begin

section \<open>Deduplication by sorting position markers (iterator_sorting.h)\<close>

text \<open>
  The container is a list \<open>c\<close>; an iterator into it is the index of the slot it refers
  to, so \<open>*it\<close> is \<open>c ! it\<close>, iterators compare by \<open>(<)\<close> on indices, and a range
  \<open>[begin, end)\<close> is a pair of indices \<open>b\<close>, \<open>e\<close>. A range is valid when
  \<open>b \<le> e\<close> and \<open>e \<le> length c\<close>; the C++ functions have undefined behaviour on any
  other range, and the theorems below assume validity.
\<close>

subsection \<open>The standard algorithms the header calls\<close>

text \<open>
  \<open>std::stable_sort(first, last, comp)\<close>. The C++ standard fixes its result: the
  elements in non-descending order of the comparator, equivalent elements in their original
  order. A stable insertion sort computes that result: an element is put in front of the
  first element that is not strictly smaller.
\<close>

fun stable_insert :: "('p \<Rightarrow> 'p \<Rightarrow> bool) \<Rightarrow> 'p \<Rightarrow> 'p list \<Rightarrow> 'p list" where
  "stable_insert lt x [] = [x]"
| "stable_insert lt x (y # ys) =
     (if lt y x then y # stable_insert lt x ys else x # y # ys)"

definition std_stable_sort :: "('p \<Rightarrow> 'p \<Rightarrow> bool) \<Rightarrow> 'p list \<Rightarrow> 'p list" where
  "std_stable_sort lt v = foldr (stable_insert lt) v []"

text \<open>
  \<open>std::unique(first, last, pred)\<close> followed by \<open>erase\<close> of the tail: from every run of
  consecutive equivalent elements only the first stays. As the library implementations
  do, each element is compared with the last element kept.
\<close>

fun unique_from :: "('p \<Rightarrow> 'p \<Rightarrow> bool) \<Rightarrow> 'p \<Rightarrow> 'p list \<Rightarrow> 'p list" where
  "unique_from pred k [] = []"
| "unique_from pred k (x # xs) =
     (if pred k x then unique_from pred k xs else x # unique_from pred x xs)"

fun std_unique :: "('p \<Rightarrow> 'p \<Rightarrow> bool) \<Rightarrow> 'p list \<Rightarrow> 'p list" where
  "std_unique pred [] = []"
| "std_unique pred (x # xs) = x # unique_from pred x xs"

text \<open>
  \<open>std::sort(first, last)\<close> on a vector of iterators orders them by position. Positions
  are linearly ordered, so the result does not depend on the sorting algorithm.
\<close>

definition std_sort_iterators :: "nat list \<Rightarrow> nat list" where
  "std_sort_iterators v = sort v"

text \<open>
  \<open>std::sort(first, last, comp)\<close> with a caller's comparator is not stable, and the
  standard says only that the result is a rearrangement of the input in non-descending
  order of the comparator. The unstable function therefore takes the sorting algorithm as a
  parameter \<open>srt\<close>, and \<open>std_sort_spec srt\<close> is what the standard promises of it.
\<close>

definition strict_weak_order :: "('t \<Rightarrow> 't \<Rightarrow> bool) \<Rightarrow> bool" where
  "strict_weak_order lt \<longleftrightarrow>
     (\<forall>a. \<not> lt a a) \<and>
     (\<forall>a b c. lt a b \<and> lt b c \<longrightarrow> lt a c) \<and>
     (\<forall>a b c. \<not> lt a b \<and> \<not> lt b a \<and> \<not> lt b c \<and> \<not> lt c b \<longrightarrow> \<not> lt a c \<and> \<not> lt c a)"

definition std_sort_spec :: "(('p \<Rightarrow> 'p \<Rightarrow> bool) \<Rightarrow> 'p list \<Rightarrow> 'p list) \<Rightarrow> bool" where
  "std_sort_spec srt \<longleftrightarrow>
     (\<forall>lt v. strict_weak_order lt \<longrightarrow>
        mset (srt lt v) = mset v \<and> sorted_wrt (\<lambda>a b. \<not> lt b a) (srt lt v))"

text \<open>
  The comparator is a strict weak ordering and the equality predicate is consistent with
  it: two values are equal exactly when neither is less than the other.
\<close>

definition consistent :: "('t \<Rightarrow> 't \<Rightarrow> bool) \<Rightarrow> ('t \<Rightarrow> 't \<Rightarrow> bool) \<Rightarrow> bool" where
  "consistent cmp equalPred \<longleftrightarrow>
     strict_weak_order cmp \<and>
     (\<forall>a b. equalPred a b \<longleftrightarrow> \<not> cmp a b \<and> \<not> cmp b a)"

subsection \<open>The functions of the header\<close>

text \<open>
  The two marker functions fill a vector \<open>v\<close> of their own with the positions of the
  range, sort it by the elements referred to, remove adjacent duplicates and sort it
  back. They read the container through the iterators and write to \<open>v\<close> only, so they
  are functions of the container that return the markers.
\<close>

definition unstable_unique_iterators ::
  "((nat \<Rightarrow> nat \<Rightarrow> bool) \<Rightarrow> nat list \<Rightarrow> nat list) \<Rightarrow>
   'a list \<Rightarrow> nat \<Rightarrow> nat \<Rightarrow> ('a \<Rightarrow> 'a \<Rightarrow> bool) \<Rightarrow> ('a \<Rightarrow> 'a \<Rightarrow> bool) \<Rightarrow> nat list" where
  "unstable_unique_iterators srt c b e cmp equalPred =
     (let v = [b..<e];
          v = srt (\<lambda>x y. cmp (c ! x) (c ! y)) v;
          v = std_unique (\<lambda>x y. equalPred (c ! x) (c ! y)) v
      in std_sort_iterators v)"

definition stable_unique_iterators ::
  "'a list \<Rightarrow> nat \<Rightarrow> nat \<Rightarrow> ('a \<Rightarrow> 'a \<Rightarrow> bool) \<Rightarrow> ('a \<Rightarrow> 'a \<Rightarrow> bool) \<Rightarrow> nat list" where
  "stable_unique_iterators c b e cmp equalPred =
     (let v = [b..<e];
          v = std_stable_sort (\<lambda>x y. cmp (c ! x) (c ! y)) v;
          v = std_unique (\<lambda>x y. equalPred (c ! x) (c ! y)) v
      in std_sort_iterators v)"

definition iter_swap :: "'a list \<Rightarrow> nat \<Rightarrow> nat \<Rightarrow> 'a list" where
  "iter_swap c i k = c[i := c ! k, k := c ! i]"

text \<open>
  The loop of the range form of \<open>stable_uniquify\<close>. It runs while \<open>it != end\<close>, so
  from a position behind \<open>end\<close> it need not stop: the result is an option, \<open>None\<close> for
  a loop that does not return. The counter \<open>j\<close> stops at \<open>uniqIts.size()\<close>, so it
  does not wrap and is a natural number.
\<close>

partial_function (option) uniquify_loop ::
  "'a list \<Rightarrow> nat list \<Rightarrow> nat \<Rightarrow> nat \<Rightarrow> nat \<Rightarrow> nat \<Rightarrow> ('a list \<times> nat) option" where
  "uniquify_loop c uniqIts e it j uniqueRegionEnd =
     (if it \<noteq> e \<and> j \<noteq> length uniqIts then
        (if it = uniqIts ! j
         then uniquify_loop (iter_swap c it uniqueRegionEnd) uniqIts e (it + 1) (j + 1)
                (uniqueRegionEnd + 1)
         else uniquify_loop c uniqIts e (it + 1) j uniqueRegionEnd)
      else Some (c, uniqueRegionEnd))"

declare uniquify_loop.simps [code]

text \<open>
  The range form returns the rearranged container together with \<open>uniqueRegionEnd\<close>.
\<close>

definition stable_uniquify ::
  "'a list \<Rightarrow> nat \<Rightarrow> nat \<Rightarrow> ('a \<Rightarrow> 'a \<Rightarrow> bool) \<Rightarrow> ('a \<Rightarrow> 'a \<Rightarrow> bool) \<Rightarrow> ('a list \<times> nat) option" where
  "stable_uniquify c b e cmp equalPred =
     (let uniqIts = stable_unique_iterators c b e cmp equalPred
      in uniquify_loop c uniqIts e b 0 b)"

text \<open>
  The vector overload. Its inner call names two template arguments,
  \<open>stable_uniquify<typename std::vector<T>::iterator, IteratorAllocator>\<close>, and the
  template parameters of the range form are \<open>It\<close>, \<open>Compare\<close>, \<open>EqualPred\<close>,
  \<open>Allocator\<close>, in this order. So \<open>IteratorAllocator\<close> is taken for \<open>Compare\<close>: the
  comparator is a value-initialised object of that type, and \<open>EqualPred\<close> is
  \<open>std::equal_to\<close>. What the range form uses of a \<open>Compare\<close> type is its call operator
  on two elements, so a type argument is modelled by that operator, or by its absence.
  \<open>std::allocator\<close>, the default of \<open>IteratorAllocator\<close>, has no call operator: the
  lambdas of \<open>stable_unique_iterators\<close> find no match for their call of \<open>comp\<close>, and
  the overload cannot be instantiated. With a type that has one, the overload runs the
  range form over \<open>[v.begin(), v.end())\<close>, erases \<open>[uniqueRegionEnd, v.end())\<close>, and
  returns what \<open>erase\<close> returns, the new end of the vector.
\<close>

datatype 'a compare_type = No_call_operator | Call_operator "'a \<Rightarrow> 'a \<Rightarrow> bool"

definition std_allocator :: "'a compare_type" where
  "std_allocator = No_call_operator"

definition std_less :: "'a::ord compare_type" where
  "std_less = Call_operator (<)"

datatype ill_formed = No_match_for_call

definition stable_uniquify_vector ::
  "'a compare_type \<Rightarrow> 'a list \<Rightarrow> ill_formed + ('a list \<times> nat) option" where
  "stable_uniquify_vector IteratorAllocator v =
     (case IteratorAllocator of
        No_call_operator \<Rightarrow> Inl No_match_for_call
      | Call_operator cmp \<Rightarrow>
          Inr (case stable_uniquify v 0 (length v) cmp (=) of
                 None \<Rightarrow> None
               | Some (v', uniqueRegionEnd) \<Rightarrow> Some (take uniqueRegionEnd v', uniqueRegionEnd)))"

subsection \<open>Notions used in the statements\<close>

text \<open>
  The order in which a stable sort by \<open>lt\<close> leaves position markers that started in
  ascending order: by key first, and by position among markers with equivalent keys.
\<close>

definition key_then_pos :: "(nat \<Rightarrow> nat \<Rightarrow> bool) \<Rightarrow> nat \<Rightarrow> nat \<Rightarrow> bool" where
  "key_then_pos lt a b \<longleftrightarrow> lt a b \<or> (\<not> lt b a \<and> a < b)"

text \<open>
  The equivalence class of position \<open>i\<close>: the positions of the range whose element the
  equality predicate deems equal to the element at \<open>i\<close>. A position is a first
  occurrence when no earlier position of the range is in its class.
\<close>

definition eq_class :: "'a list \<Rightarrow> nat \<Rightarrow> nat \<Rightarrow> ('a \<Rightarrow> 'a \<Rightarrow> bool) \<Rightarrow> nat \<Rightarrow> nat set" where
  "eq_class c b e equalPred i = {j \<in> {b..<e}. equalPred (c ! j) (c ! i)}"

definition eq_classes :: "'a list \<Rightarrow> nat \<Rightarrow> nat \<Rightarrow> ('a \<Rightarrow> 'a \<Rightarrow> bool) \<Rightarrow> nat set set" where
  "eq_classes c b e equalPred = eq_class c b e equalPred ` {b..<e}"

definition first_occurrence :: "'a list \<Rightarrow> nat \<Rightarrow> ('a \<Rightarrow> 'a \<Rightarrow> bool) \<Rightarrow> nat \<Rightarrow> bool" where
  "first_occurrence c b equalPred i \<longleftrightarrow> (\<forall>j\<in>{b..<i}. \<not> equalPred (c ! j) (c ! i))"

text \<open>
  An implementation of \<open>std::sort\<close> that is not stable, to instantiate the parameter of
  \<open>unstable_unique_iterators\<close>: insertion from the left, which leaves equivalent
  elements in the reverse of their original order.
\<close>

definition reversing_sort :: "('p \<Rightarrow> 'p \<Rightarrow> bool) \<Rightarrow> 'p list \<Rightarrow> 'p list" where
  "reversing_sort lt v = foldl (\<lambda>acc x. stable_insert lt x acc) [] v"

section \<open>Properties\<close>

subsection \<open>Strict weak orders and consistent predicates\<close>

lemma swo_irrefl: "strict_weak_order lt \<Longrightarrow> \<not> lt a a"
  by (simp add: strict_weak_order_def)

lemma swo_trans: "strict_weak_order lt \<Longrightarrow> lt a b \<Longrightarrow> lt b c \<Longrightarrow> lt a c"
  unfolding strict_weak_order_def by blast

lemma swo_asym: "strict_weak_order lt \<Longrightarrow> lt a b \<Longrightarrow> \<not> lt b a"
  using swo_irrefl [of lt a] swo_trans [of lt a b a] by blast

lemma swo_incomp_trans:
  "strict_weak_order lt \<Longrightarrow> \<not> lt a b \<Longrightarrow> \<not> lt b a \<Longrightarrow> \<not> lt b c \<Longrightarrow> \<not> lt c b
     \<Longrightarrow> \<not> lt a c \<and> \<not> lt c a"
  unfolding strict_weak_order_def by blast

lemma swo_cotrans:
  assumes swo: "strict_weak_order lt" and ac: "lt a c"
  shows "lt a b \<or> lt b c"
proof (rule ccontr)
  assume n: "\<not> (lt a b \<or> lt b c)"
  show False
  proof (cases "lt b a")
    case True
    with ac swo_trans [OF swo] have "lt b c" by blast
    with n show False by simp
  next
    case ba: False
    show False
    proof (cases "lt c b")
      case True
      with ac swo_trans [OF swo] have "lt a b" by blast
      with n show False by simp
    next
      case False
      with ba n swo_incomp_trans [OF swo, of a b c] have "\<not> lt a c" by blast
      with ac show False by simp
    qed
  qed
qed

lemma consistent_swo: "consistent lt eq \<Longrightarrow> strict_weak_order lt"
  by (simp add: consistent_def)

lemma consistent_eq: "consistent lt eq \<Longrightarrow> eq a b \<longleftrightarrow> \<not> lt a b \<and> \<not> lt b a"
  by (simp add: consistent_def)

lemma consistent_refl: "consistent lt eq \<Longrightarrow> eq a a"
  using consistent_eq [of lt eq a a] swo_irrefl [OF consistent_swo, of lt eq a] by blast

lemma consistent_sym: "consistent lt eq \<Longrightarrow> eq a b \<Longrightarrow> eq b a"
  using consistent_eq [of lt eq a b] consistent_eq [of lt eq b a] by blast

lemma consistent_trans: "consistent lt eq \<Longrightarrow> eq a b \<Longrightarrow> eq b c \<Longrightarrow> eq a c"
  using swo_incomp_trans [OF consistent_swo, of lt eq a b c]
    consistent_eq [of lt eq a b] consistent_eq [of lt eq b c] consistent_eq [of lt eq a c]
  by blast

lemma consistent_between:
  assumes con: "consistent lt eq" and kx: "\<not> lt x k" and xy: "\<not> lt y x" and ky: "eq k y"
  shows "eq k x"
proof -
  have "\<not> lt k y" using ky consistent_eq [OF con, of k y] by blast
  with swo_cotrans [OF consistent_swo [OF con], of k x y] xy have "\<not> lt k x" by blast
  with kx consistent_eq [OF con, of k x] show ?thesis by blast
qed

lemma strict_weak_order_deref:
  "strict_weak_order cmp \<Longrightarrow> strict_weak_order (\<lambda>a b. cmp (c ! a) (c ! b))"
  unfolding strict_weak_order_def by blast

lemma consistent_deref:
  "consistent cmp equalPred \<Longrightarrow>
     consistent (\<lambda>a b. cmp (c ! a) (c ! b)) (\<lambda>a b. equalPred (c ! a) (c ! b))"
  unfolding consistent_def using strict_weak_order_deref [of cmp c] by blast

lemma strict_weak_order_linorder: "strict_weak_order ((<) :: 'a::linorder \<Rightarrow> _)"
  unfolding strict_weak_order_def by auto

lemma consistent_linorder: "consistent ((<) :: 'a::linorder \<Rightarrow> _) (=)"
  unfolding consistent_def using strict_weak_order_linorder by auto

subsection \<open>The stable sort\<close>

lemma mset_stable_insert: "mset (stable_insert lt x ys) = add_mset x (mset ys)"
  by (induction ys) auto

lemma set_stable_insert: "set (stable_insert lt x ys) = insert x (set ys)"
  by (induction ys) auto

lemma mset_std_stable_sort: "mset (std_stable_sort lt v) = mset v"
  by (induction v) (auto simp: std_stable_sort_def mset_stable_insert)

lemma set_std_stable_sort: "set (std_stable_sort lt v) = set v"
  by (induction v) (auto simp: std_stable_sort_def set_stable_insert)

lemma sorted_stable_insert:
  assumes swo: "strict_weak_order lt"
  shows "sorted_wrt (key_then_pos lt) ys \<Longrightarrow> \<forall>y\<in>set ys. x < y
           \<Longrightarrow> sorted_wrt (key_then_pos lt) (stable_insert lt x ys)"
proof (induction ys)
  case Nil
  then show ?case by simp
next
  case (Cons y ys)
  show ?case
  proof (cases "lt y x")
    case True
    then have "key_then_pos lt y x" by (simp add: key_then_pos_def)
    with True Cons show ?thesis by (simp add: set_stable_insert)
  next
    case False
    have "key_then_pos lt x z" if z: "z \<in> set (y # ys)" for z
    proof -
      have xz: "x < z" using z Cons.prems(2) by blast
      have "\<not> lt z x"
      proof
        assume zx: "lt z x"
        from swo_cotrans [OF swo zx, of y] False have zy: "lt z y" by blast
        then have "z \<noteq> y" using swo_irrefl [OF swo, of y] by blast
        with z Cons.prems(1) have "key_then_pos lt y z" by simp
        then have "\<not> lt z y" using swo_asym [OF swo, of y z] unfolding key_then_pos_def by blast
        with zy show False by blast
      qed
      with xz show ?thesis by (simp add: key_then_pos_def)
    qed
    with False Cons.prems(1) show ?thesis by simp
  qed
qed

lemma sorted_std_stable_sort:
  assumes swo: "strict_weak_order lt"
  shows "sorted_wrt (<) v \<Longrightarrow> sorted_wrt (key_then_pos lt) (std_stable_sort lt v)"
proof (induction v)
  case Nil
  then show ?case by (simp add: std_stable_sort_def)
next
  case (Cons x v)
  have 1: "sorted_wrt (key_then_pos lt) (std_stable_sort lt v)" using Cons by simp
  have 2: "\<forall>y\<in>set (std_stable_sort lt v). x < y" using Cons.prems by (simp add: set_std_stable_sort)
  show ?case using sorted_stable_insert [OF swo 1 2] by (simp add: std_stable_sort_def)
qed

subsection \<open>Removal of adjacent duplicates\<close>

lemma set_unique_from: "set (unique_from p k xs) \<subseteq> set xs"
  by (induction xs arbitrary: k) auto

lemma set_std_unique: "set (std_unique p xs) \<subseteq> set xs"
  using set_unique_from [of p] by (cases xs) auto

lemma sorted_wrt_unique_from: "sorted_wrt P xs \<Longrightarrow> sorted_wrt P (unique_from p k xs)"
proof (induction xs arbitrary: k)
  case Nil
  then show ?case by simp
next
  case (Cons x xs)
  have "\<forall>y\<in>set (unique_from p x xs). P x y"
    using Cons.prems set_unique_from [of p x xs] by auto
  with Cons show ?case by simp
qed

lemma sorted_wrt_std_unique: "sorted_wrt P xs \<Longrightarrow> sorted_wrt P (std_unique p xs)"
proof (cases xs)
  case Nil
  then show ?thesis by simp
next
  case (Cons x ys)
  assume "sorted_wrt P xs"
  with Cons have a: "\<forall>y\<in>set ys. P x y" and b: "sorted_wrt P ys" by simp_all
  have "\<forall>y\<in>set (unique_from p x ys). P x y" using a set_unique_from [of p x ys] by auto
  with sorted_wrt_unique_from [OF b, of p x] Cons show ?thesis by simp
qed

lemma distinct_sorted_wrt_neq: "distinct xs \<longleftrightarrow> sorted_wrt (\<noteq>) xs"
  by (induction xs) auto

lemma distinct_std_unique: "distinct xs \<Longrightarrow> distinct (std_unique p xs)"
  using sorted_wrt_std_unique [of "(\<noteq>)" xs p] by (simp add: distinct_sorted_wrt_neq)

lemma length_unique_from: "length (unique_from p k xs) \<le> length xs"
  by (induction xs arbitrary: k) (auto intro: le_SucI)

lemma length_std_unique: "length (std_unique p xs) \<le> length xs"
  using length_unique_from [of p] by (cases xs) auto

lemma cover_unique_from:
  "\<forall>a. p a a \<Longrightarrow> x \<in> set xs \<Longrightarrow> \<exists>y\<in>insert k (set (unique_from p k xs)). p y x"
  by (induction xs arbitrary: k) auto

lemma cover_std_unique:
  "\<forall>a. p a a \<Longrightarrow> x \<in> set xs \<Longrightarrow> \<exists>y\<in>set (std_unique p xs). p y x"
  using cover_unique_from [of p x] by (cases xs) auto

lemma strict_unique_from:
  assumes con: "consistent lt p"
  shows "sorted_wrt (\<lambda>a b. \<not> lt b a) (k # xs) \<Longrightarrow> sorted_wrt lt (k # unique_from p k xs)"
proof (induction xs arbitrary: k)
  case Nil
  then show ?case by simp
next
  case (Cons x xs)
  show ?case
  proof (cases "p k x")
    case True
    have "sorted_wrt (\<lambda>a b. \<not> lt b a) (k # xs)" using Cons.prems by simp
    then have "sorted_wrt lt (k # unique_from p k xs)" by (rule Cons.IH)
    with True show ?thesis by simp
  next
    case False
    have "\<not> lt x k" using Cons.prems by simp
    with False have kx: "lt k x" using consistent_eq [OF con, of k x] by blast
    have "sorted_wrt (\<lambda>a b. \<not> lt b a) (x # xs)" using Cons.prems by simp
    then have tl: "sorted_wrt lt (x # unique_from p x xs)" by (rule Cons.IH)
    have "lt k z" if z: "z \<in> set (x # unique_from p x xs)" for z
    proof (cases "z = x")
      case True
      with kx show ?thesis by simp
    next
      case False
      with z have "z \<in> set (unique_from p x xs)" by simp
      with tl have "lt x z" by simp
      with kx show ?thesis by (rule swo_trans [OF consistent_swo [OF con]])
    qed
    then have "\<forall>z\<in>set (x # unique_from p x xs). lt k z" by blast
    with tl have "sorted_wrt lt (k # x # unique_from p x xs)"
      unfolding sorted_wrt.simps(2) [of lt k] by blast
    with False show ?thesis by simp
  qed
qed

lemma strict_std_unique:
  assumes con: "consistent lt p" and srt: "sorted_wrt (\<lambda>a b. \<not> lt b a) xs"
  shows "sorted_wrt lt (std_unique p xs)"
proof (cases xs)
  case Nil
  then show ?thesis by simp
next
  case (Cons x ys)
  with strict_unique_from [OF con, of x ys] srt show ?thesis by simp
qed

lemma sorted_wrt_related:
  "sorted_wrt P xs \<Longrightarrow> x \<in> set xs \<Longrightarrow> y \<in> set xs \<Longrightarrow> x = y \<or> P x y \<or> P y x"
  by (induction xs) auto

text \<open>No two markers left by \<open>std_unique\<close> refer to equal elements.\<close>

lemma std_unique_inequivalent:
  assumes con: "consistent lt p" and srt: "sorted_wrt (\<lambda>a b. \<not> lt b a) xs"
    and x: "x \<in> set (std_unique p xs)" and y: "y \<in> set (std_unique p xs)" and xy: "p x y"
  shows "x = y"
proof -
  have "\<not> lt x y" "\<not> lt y x" using xy consistent_eq [OF con, of x y] by blast+
  with sorted_wrt_related [OF strict_std_unique [OF con srt] x y] show ?thesis by blast
qed

lemma key_then_pos_weaken:
  assumes swo: "strict_weak_order lt" and s: "sorted_wrt (key_then_pos lt) xs"
  shows "sorted_wrt (\<lambda>a b. \<not> lt b a) xs"
proof (rule sorted_wrt_mono_rel [OF _ s])
  fix a b assume "key_then_pos lt a b"
  then show "\<not> lt b a" using swo_asym [OF swo, of a b] unfolding key_then_pos_def by blast
qed

text \<open>
  In a sequence ordered by key and then by position, every marker kept is the smallest
  position of its class.
\<close>

lemma first_unique_from:
  assumes con: "consistent lt p"
  shows "sorted_wrt (key_then_pos lt) (k # xs) \<Longrightarrow> x \<in> set (unique_from p k xs)
           \<Longrightarrow> j \<in> set (k # xs) \<Longrightarrow> p j x \<Longrightarrow> x \<le> j"
proof (induction xs arbitrary: k j)
  case Nil
  then show ?case by simp
next
  case (Cons y ys)
  note swo = consistent_swo [OF con]
  have ky: "key_then_pos lt k y" using Cons.prems(1) by simp
  have kys: "sorted_wrt (key_then_pos lt) (k # ys)" using Cons.prems(1) by simp
  have yys: "sorted_wrt (key_then_pos lt) (y # ys)" using Cons.prems(1) by simp
  show ?case
  proof (cases "p k y")
    case True
    then have x: "x \<in> set (unique_from p k ys)" using Cons.prems(2) by simp
    then have xys: "x \<in> set ys" using set_unique_from [of p k ys] by blast
    show ?thesis
    proof (cases "j = y")
      case False
      then have "j \<in> set (k # ys)" using Cons.prems(3) by auto
      from Cons.IH [OF kys x this Cons.prems(4)] show ?thesis .
    next
      case jy: True
      have "p k x" using consistent_trans [OF con True] Cons.prems(4) jy by blast
      have "k \<in> set (k # ys)" by simp
      from Cons.IH [OF kys x this \<open>p k x\<close>] have "x \<le> k" .
      moreover have "key_then_pos lt k x" using kys xys by simp
      then have "k < x" using \<open>p k x\<close> consistent_eq [OF con, of k x]
        unfolding key_then_pos_def by blast
      ultimately show ?thesis by simp
    qed
  next
    case False
    then have x: "x = y \<or> x \<in> set (unique_from p y ys)" using Cons.prems(2) by auto
    show ?thesis
    proof (cases "x = y")
      case True
      have "j \<noteq> k" using False Cons.prems(4) True by blast
      then have "j = y \<or> j \<in> set ys" using Cons.prems(3) by auto
      then show ?thesis
      proof
        assume "j = y" with True show ?thesis by simp
      next
        assume "j \<in> set ys"
        then have "key_then_pos lt y j" using yys by simp
        moreover have "p y j" using consistent_sym [OF con] Cons.prems(4) True by blast
        ultimately have "y < j" using consistent_eq [OF con, of y j]
          unfolding key_then_pos_def by blast
        with True show ?thesis by simp
      qed
    next
      case xny: False
      with x have x': "x \<in> set (unique_from p y ys)" by blast
      then have xys: "x \<in> set ys" using set_unique_from [of p y ys] by blast
      show ?thesis
      proof (cases "j = k")
        case False
        then have "j \<in> set (y # ys)" using Cons.prems(3) by auto
        from Cons.IH [OF yys x' this Cons.prems(4)] show ?thesis .
      next
        case True
        have "\<not> lt y k" using ky swo_asym [OF swo, of k y] unfolding key_then_pos_def by blast
        moreover have "key_then_pos lt y x" using yys xys by simp
        then have "\<not> lt x y" using swo_asym [OF swo, of y x] unfolding key_then_pos_def by blast
        moreover have "p k x" using Cons.prems(4) True by simp
        ultimately have "p k y" by (rule consistent_between [OF con])
        with False show ?thesis by simp
      qed
    qed
  qed
qed

lemma first_std_unique:
  assumes con: "consistent lt p" and srt: "sorted_wrt (key_then_pos lt) xs"
    and x: "x \<in> set (std_unique p xs)" and j: "j \<in> set xs" and jx: "p j x"
  shows "x \<le> j"
proof (cases xs)
  case Nil
  with j show ?thesis by simp
next
  case (Cons k ys)
  show ?thesis
  proof (cases "x = k")
    case False
    with x Cons have "x \<in> set (unique_from p k ys)" by simp
    from first_unique_from [OF con _ this _ jx, of] srt j Cons show ?thesis by simp
  next
    case True
    show ?thesis
    proof (cases "j = k")
      case True
      with \<open>x = k\<close> show ?thesis by simp
    next
      case False
      with j Cons have "j \<in> set ys" by simp
      with srt Cons have "key_then_pos lt k j" by simp
      moreover have "p k j" using consistent_sym [OF con] jx True by blast
      ultimately have "k < j" using consistent_eq [OF con, of k j]
        unfolding key_then_pos_def by blast
      with True show ?thesis by simp
    qed
  qed
qed

subsection \<open>Sorting the markers back\<close>

lemma set_std_sort_iterators: "set (std_sort_iterators v) = set v"
  by (simp add: std_sort_iterators_def)

lemma length_std_sort_iterators: "length (std_sort_iterators v) = length v"
  by (simp add: std_sort_iterators_def)

lemma ascending_std_sort_iterators: "distinct v \<Longrightarrow> sorted_wrt (<) (std_sort_iterators v)"
  by (simp add: std_sort_iterators_def strict_sorted_iff)

lemma ascending_unique:
  assumes "sorted_wrt (<) xs" and "sorted_wrt (<) ys" and "set xs = set ys"
  shows "xs = (ys :: nat list)"
  using assms sorted_distinct_set_unique [of xs ys] by (simp add: strict_sorted_iff)

text \<open>
  Any sorting algorithm that meets the postcondition of \<open>std::sort\<close> orders position
  markers as \<open>std_sort_iterators\<close> does.
\<close>

lemma std_sort_spec_iterators:
  assumes "std_sort_spec srt"
  shows "srt (<) v = std_sort_iterators v"
proof -
  have swo: "strict_weak_order ((<) :: nat \<Rightarrow> nat \<Rightarrow> bool)"
    by (rule strict_weak_order_linorder)
  from assms swo have m: "mset (srt (<) v) = mset v"
    and s: "sorted_wrt (\<lambda>a b. \<not> b < a) (srt (<) v)"
    unfolding std_sort_spec_def by blast+
  have "(\<lambda>a b :: nat. \<not> b < a) = (\<le>)" by (intro ext) auto
  with s have "sorted (srt (<) v)" by simp
  with m show ?thesis unfolding std_sort_iterators_def
    by (metis properties_for_sort)
qed

subsection \<open>Sort, remove adjacent duplicates, sort back\<close>

lemma pipeline_ascending:
  assumes "mset s = mset v" and "distinct v"
  shows "sorted_wrt (<) (std_sort_iterators (std_unique p s))"
proof -
  have "distinct s" using assms by (metis mset_eq_imp_distinct_iff)
  then show ?thesis by (intro ascending_std_sort_iterators distinct_std_unique)
qed

lemma pipeline_subset:
  assumes "mset s = mset v"
  shows "set (std_sort_iterators (std_unique p s)) \<subseteq> set v"
proof -
  have "set s = set v" using assms by (metis set_mset_mset)
  with set_std_unique [of p s] show ?thesis by (simp add: set_std_sort_iterators)
qed

lemma pipeline_length:
  assumes "mset s = mset v"
  shows "length (std_sort_iterators (std_unique p s)) \<le> length v"
proof -
  have "length s = length v" using assms by (metis size_mset)
  with length_std_unique [of p s] show ?thesis by (simp add: length_std_sort_iterators)
qed

lemma pipeline_cover:
  assumes con: "consistent lt p" and perm: "mset s = mset v" and i: "i \<in> set v"
  shows "\<exists>q\<in>set (std_sort_iterators (std_unique p s)). p q i"
proof -
  have "set s = set v" using perm by (metis set_mset_mset)
  with i have "i \<in> set s" by simp
  moreover have "\<forall>a. p a a" using consistent_refl [OF con] by blast
  ultimately show ?thesis using cover_std_unique [of p i s] by (simp add: set_std_sort_iterators)
qed

lemma pipeline_inequivalent:
  assumes con: "consistent lt p" and srt: "sorted_wrt (\<lambda>a b. \<not> lt b a) s"
    and x: "x \<in> set (std_sort_iterators (std_unique p s))"
    and y: "y \<in> set (std_sort_iterators (std_unique p s))" and xy: "p x y"
  shows "x = y"
  using std_unique_inequivalent [OF con srt _ _ xy] x y by (simp add: set_std_sort_iterators)

lemma pipeline_first:
  assumes con: "consistent lt p" and perm: "mset s = mset v"
    and srt: "sorted_wrt (key_then_pos lt) s"
    and x: "x \<in> set (std_sort_iterators (std_unique p s))" and j: "j \<in> set v" and jx: "p j x"
  shows "x \<le> j"
proof -
  have "set s = set v" using perm by (metis set_mset_mset)
  with j have "j \<in> set s" by simp
  with first_std_unique [OF con srt _ _ jx] x show ?thesis by (simp add: set_std_sort_iterators)
qed

subsection \<open>The stable position markers\<close>

lemma stable_unique_iterators_ascending:
  "sorted_wrt (<) (stable_unique_iterators c b e cmp equalPred)"
  unfolding stable_unique_iterators_def Let_def
  by (rule pipeline_ascending [of _ "[b..<e]"]) (simp_all add: mset_std_stable_sort)

lemma stable_unique_iterators_subset:
  "set (stable_unique_iterators c b e cmp equalPred) \<subseteq> {b..<e}"
  unfolding stable_unique_iterators_def Let_def
  using pipeline_subset [of _ "[b..<e]", OF mset_std_stable_sort] by simp

lemma stable_unique_iterators_length:
  "length (stable_unique_iterators c b e cmp equalPred) \<le> e - b"
  unfolding stable_unique_iterators_def Let_def
  using pipeline_length [of _ "[b..<e]", OF mset_std_stable_sort] by simp

lemma stable_unique_iterators_cover:
  assumes "consistent cmp equalPred" and "i \<in> {b..<e}"
  shows "\<exists>q\<in>set (stable_unique_iterators c b e cmp equalPred). equalPred (c ! q) (c ! i)"
  unfolding stable_unique_iterators_def Let_def
  using pipeline_cover [OF consistent_deref [OF assms(1), of c] mset_std_stable_sort, of i "[b..<e]"]
    assms(2) by simp

lemma stable_unique_iterators_inequivalent:
  assumes con: "consistent cmp equalPred"
    and x: "x \<in> set (stable_unique_iterators c b e cmp equalPred)"
    and y: "y \<in> set (stable_unique_iterators c b e cmp equalPred)"
    and xy: "equalPred (c ! x) (c ! y)"
  shows "x = y"
proof -
  note con' = consistent_deref [OF con, of c]
  have "sorted_wrt (key_then_pos (\<lambda>a b. cmp (c ! a) (c ! b)))
          (std_stable_sort (\<lambda>a b. cmp (c ! a) (c ! b)) [b..<e])"
    by (rule sorted_std_stable_sort [OF consistent_swo [OF con']]) (simp add: strict_sorted_iff)
  then have "sorted_wrt (\<lambda>a b. \<not> cmp (c ! b) (c ! a))
          (std_stable_sort (\<lambda>a b. cmp (c ! a) (c ! b)) [b..<e])"
    by (rule key_then_pos_weaken [OF consistent_swo [OF con']])
  from pipeline_inequivalent [OF con' this _ _ xy] x y show ?thesis
    unfolding stable_unique_iterators_def Let_def by blast
qed

lemma stable_unique_iterators_first:
  assumes con: "consistent cmp equalPred"
    and x: "x \<in> set (stable_unique_iterators c b e cmp equalPred)"
    and j: "j \<in> {b..<e}" and jx: "equalPred (c ! j) (c ! x)"
  shows "x \<le> j"
proof -
  note con' = consistent_deref [OF con, of c]
  have s: "sorted_wrt (key_then_pos (\<lambda>a b. cmp (c ! a) (c ! b)))
          (std_stable_sort (\<lambda>a b. cmp (c ! a) (c ! b)) [b..<e])"
    by (rule sorted_std_stable_sort [OF consistent_swo [OF con']]) (simp add: strict_sorted_iff)
  have j': "j \<in> set [b..<e]" using j by simp
  from pipeline_first [OF con' mset_std_stable_sort s _ j' jx] x show ?thesis
    unfolding stable_unique_iterators_def Let_def by blast
qed

lemma stable_unique_iterators_set:
  assumes con: "consistent cmp equalPred"
  shows "set (stable_unique_iterators c b e cmp equalPred)
           = {i \<in> {b..<e}. first_occurrence c b equalPred i}"
proof (intro equalityI subsetI)
  fix x assume x: "x \<in> set (stable_unique_iterators c b e cmp equalPred)"
  then have r: "x \<in> {b..<e}" using stable_unique_iterators_subset by blast
  have "\<not> equalPred (c ! j) (c ! x)" if "j \<in> {b..<x}" for j
  proof
    assume "equalPred (c ! j) (c ! x)"
    moreover have "j \<in> {b..<e}" using that r by simp
    ultimately have "x \<le> j" using stable_unique_iterators_first [OF con x] by blast
    with that show False by simp
  qed
  with r show "x \<in> {i \<in> {b..<e}. first_occurrence c b equalPred i}"
    unfolding first_occurrence_def by blast
next
  fix x assume "x \<in> {i \<in> {b..<e}. first_occurrence c b equalPred i}"
  then have r: "x \<in> {b..<e}" and f: "first_occurrence c b equalPred x" by simp_all
  from stable_unique_iterators_cover [OF con r]
  obtain q where q: "q \<in> set (stable_unique_iterators c b e cmp equalPred)"
    and qx: "equalPred (c ! q) (c ! x)" by blast
  have "x \<le> q"
  proof (rule ccontr)
    assume "\<not> x \<le> q"
    moreover have "b \<le> q" using q stable_unique_iterators_subset [of c b e cmp equalPred] by auto
    ultimately have "q \<in> {b..<x}" by simp
    with f qx show False unfolding first_occurrence_def by blast
  qed
  moreover have "q \<le> x"
    using stable_unique_iterators_first [OF con q r] consistent_sym [OF con qx] by blast
  ultimately show "x \<in> set (stable_unique_iterators c b e cmp equalPred)" using q by simp
qed

text \<open>
  The markers returned are the first occurrences, in the order of the range.
\<close>

lemma stable_unique_iterators_filter:
  assumes con: "consistent cmp equalPred"
  shows "stable_unique_iterators c b e cmp equalPred
           = filter (first_occurrence c b equalPred) [b..<e]"
proof (rule ascending_unique)
  show "sorted_wrt (<) (stable_unique_iterators c b e cmp equalPred)"
    by (rule stable_unique_iterators_ascending)
  show "sorted_wrt (<) (filter (first_occurrence c b equalPred) [b..<e])"
    by (rule sorted_wrt_filter) (simp add: strict_sorted_iff)
  show "set (stable_unique_iterators c b e cmp equalPred)
          = set (filter (first_occurrence c b equalPred) [b..<e])"
    by (simp add: stable_unique_iterators_set [OF con])
qed

subsection \<open>One marker per equivalence class\<close>

lemma eq_class_self:
  "consistent cmp equalPred \<Longrightarrow> i \<in> {b..<e} \<Longrightarrow> i \<in> eq_class c b e equalPred i"
  using consistent_refl [of cmp equalPred "c ! i"] by (simp add: eq_class_def)

lemma eq_class_eq:
  assumes con: "consistent cmp equalPred" and xy: "equalPred (c ! x) (c ! y)"
  shows "eq_class c b e equalPred x = eq_class c b e equalPred y"
proof -
  have "equalPred (c ! j) (c ! x) \<longleftrightarrow> equalPred (c ! j) (c ! y)" for j
    using consistent_trans [OF con, of "c ! j" "c ! x" "c ! y"]
      consistent_trans [OF con, of "c ! j" "c ! y" "c ! x"] consistent_sym [OF con xy] xy
    by blast
  then show ?thesis by (simp add: eq_class_def)
qed

lemma one_per_class:
  assumes con: "consistent cmp equalPred" and d: "distinct r" and sub: "set r \<subseteq> {b..<e}"
    and cov: "\<And>i. i \<in> {b..<e} \<Longrightarrow> \<exists>q\<in>set r. equalPred (c ! q) (c ! i)"
    and ineq: "\<And>x y. x \<in> set r \<Longrightarrow> y \<in> set r \<Longrightarrow> equalPred (c ! x) (c ! y) \<Longrightarrow> x = y"
  shows "image_mset (eq_class c b e equalPred) (mset r) = mset_set (eq_classes c b e equalPred)"
    and "length r = card (eq_classes c b e equalPred)"
proof -
  have inj: "inj_on (eq_class c b e equalPred) (set r)"
  proof (rule inj_onI)
    fix x y assume x: "x \<in> set r" and y: "y \<in> set r"
      and eq: "eq_class c b e equalPred x = eq_class c b e equalPred y"
    have "x \<in> eq_class c b e equalPred x" using eq_class_self [OF con] x sub by blast
    with eq have "x \<in> eq_class c b e equalPred y" by simp
    then have "equalPred (c ! x) (c ! y)" by (simp add: eq_class_def)
    with x y show "x = y" by (rule ineq)
  qed
  have img: "eq_class c b e equalPred ` set r = eq_classes c b e equalPred"
  proof (intro equalityI subsetI)
    fix C assume "C \<in> eq_class c b e equalPred ` set r"
    with sub show "C \<in> eq_classes c b e equalPred" unfolding eq_classes_def by blast
  next
    fix C assume "C \<in> eq_classes c b e equalPred"
    then obtain i where i: "i \<in> {b..<e}" and C: "C = eq_class c b e equalPred i"
      unfolding eq_classes_def by blast
    from cov [OF i] obtain q where q: "q \<in> set r" and qi: "equalPred (c ! q) (c ! i)" by blast
    from eq_class_eq [OF con qi] C have "C = eq_class c b e equalPred q" by simp
    with q show "C \<in> eq_class c b e equalPred ` set r" by blast
  qed
  have "image_mset (eq_class c b e equalPred) (mset r)
          = image_mset (eq_class c b e equalPred) (mset_set (set r))"
    using d by (simp add: mset_set_set)
  also have "\<dots> = mset_set (eq_class c b e equalPred ` set r)"
    using inj by (rule image_mset_mset_set)
  finally show "image_mset (eq_class c b e equalPred) (mset r)
                  = mset_set (eq_classes c b e equalPred)"
    using img by simp
  have "length r = card (set r)" using d by (simp add: distinct_card)
  also have "\<dots> = card (eq_class c b e equalPred ` set r)" using inj by (simp add: card_image)
  finally show "length r = card (eq_classes c b e equalPred)" using img by simp
qed

subsection \<open>The compaction loop\<close>

lemma length_iter_swap: "length (iter_swap c i k) = length c"
  by (simp add: iter_swap_def)

lemma mset_iter_swap: "i < length c \<Longrightarrow> k < length c \<Longrightarrow> mset (iter_swap c i k) = mset c"
  by (simp add: iter_swap_def mset_swap)

lemma nth_iter_swap_other: "n \<noteq> i \<Longrightarrow> n \<noteq> k \<Longrightarrow> iter_swap c i k ! n = c ! n"
  by (simp add: iter_swap_def)

lemma nth_iter_swap_target: "i < length c \<Longrightarrow> k < length c \<Longrightarrow> iter_swap c i k ! k = c ! i"
  by (simp add: iter_swap_def)

text \<open>
  From a position inside a valid range the loop returns, and it has only exchanged
  elements of the range at or behind \<open>uniqueRegionEnd\<close>.
\<close>

lemma uniquify_loop_returns:
  assumes "r \<le> it" and "it \<le> e" and "e \<le> length c"
  shows "\<exists>c' r'. uniquify_loop c u e it j r = Some (c', r') \<and> length c' = length c \<and>
           mset c' = mset c \<and> (\<forall>n. n < r \<or> e \<le> n \<longrightarrow> c' ! n = c ! n)"
  using assms
proof (induction "e - it" arbitrary: c it j r)
  case 0
  then have "it = e" by simp
  then show ?case using uniquify_loop.simps [of c u e it j r] by simp
next
  case (Suc m)
  show ?case
  proof (cases "j = length u")
    case True
    then show ?thesis using uniquify_loop.simps [of c u e it j r] by simp
  next
    case False
    from Suc.hyps(2) have ite: "it < e" by simp
    show ?thesis
    proof (cases "it = u ! j")
      case True
      have step: "uniquify_loop c u e it j r
                    = uniquify_loop (iter_swap c it r) u e (it + 1) (j + 1) (r + 1)"
        using uniquify_loop.simps [of c u e it j r] False ite True by simp
      have m: "m = e - (it + 1)" using Suc.hyps(2) by simp
      have pre: "r + 1 \<le> it + 1" "it + 1 \<le> e" "e \<le> length (iter_swap c it r)"
        using Suc.prems ite by (simp_all add: length_iter_swap)
      from Suc.hyps(1) [OF m pre, of "j + 1"]
      obtain c' r' where res: "uniquify_loop (iter_swap c it r) u e (it + 1) (j + 1) (r + 1)
                                 = Some (c', r')"
        and len: "length c' = length (iter_swap c it r)"
        and ms: "mset c' = mset (iter_swap c it r)"
        and fr: "\<forall>n. n < r + 1 \<or> e \<le> n \<longrightarrow> c' ! n = iter_swap c it r ! n"
        by blast
      have "mset c' = mset c" using ms mset_iter_swap [of it c r] Suc.prems ite by simp
      moreover have "c' ! n = c ! n" if n: "n < r \<or> e \<le> n" for n
      proof -
        have "c' ! n = iter_swap c it r ! n" using fr n by auto
        also have "\<dots> = c ! n" using n Suc.prems ite by (intro nth_iter_swap_other) auto
        finally show ?thesis .
      qed
      ultimately show ?thesis using step res len by (simp add: length_iter_swap)
    next
      case no: False
      have step: "uniquify_loop c u e it j r = uniquify_loop c u e (it + 1) j r"
        using uniquify_loop.simps [of c u e it j r] False ite no by simp
      have m: "m = e - (it + 1)" using Suc.hyps(2) by simp
      have pre: "r \<le> it + 1" "it + 1 \<le> e" "e \<le> length c"
        using Suc.prems ite by simp_all
      from Suc.hyps(1) [OF m pre, of j] step show ?thesis by simp
    qed
  qed
qed

text \<open>
  With the markers in ascending order and inside the rest of the range, the loop moves
  the marked elements, in order, to the positions from \<open>uniqueRegionEnd\<close> on.
\<close>

lemma uniquify_loop_values:
  assumes "r \<le> it" and "it \<le> e" and "e \<le> length c" and "j \<le> length u"
    and "sorted_wrt (<) u" and "\<forall>k. j \<le> k \<and> k < length u \<longrightarrow> it \<le> u ! k \<and> u ! k < e"
  shows "\<exists>c'. uniquify_loop c u e it j r = Some (c', r + (length u - j)) \<and>
           (\<forall>k<length u - j. c' ! (r + k) = c ! (u ! (j + k)))"
  using assms
proof (induction "e - it" arbitrary: c it j r)
  case 0
  then have ite: "it = e" by simp
  have "j = length u"
  proof (rule ccontr)
    assume "j \<noteq> length u"
    with "0.prems"(4) have "j < length u" by simp
    with "0.prems"(6) ite show False by auto
  qed
  then show ?case using uniquify_loop.simps [of c u e it j r] by simp
next
  case (Suc m)
  show ?case
  proof (cases "j = length u")
    case True
    then show ?thesis using uniquify_loop.simps [of c u e it j r] by simp
  next
    case False
    with Suc.prems(4) have jl: "j < length u" by simp
    from Suc.hyps(2) have ite: "it < e" by simp
    have m: "m = e - (it + 1)" using Suc.hyps(2) by simp
    note asc = Suc.prems(5)
    show ?thesis
    proof (cases "it = u ! j")
      case True
      have step: "uniquify_loop c u e it j r
                    = uniquify_loop (iter_swap c it r) u e (it + 1) (j + 1) (r + 1)"
        using uniquify_loop.simps [of c u e it j r] False ite True by simp
      have later: "it + 1 \<le> u ! k \<and> u ! k < e" if k: "j + 1 \<le> k \<and> k < length u" for k
      proof -
        have "u ! j < u ! k" using asc k by (simp add: sorted_wrt_iff_nth_less)
        moreover have "u ! k < e" using Suc.prems(6) k by simp
        ultimately show ?thesis using True by simp
      qed
      have pre: "r + 1 \<le> it + 1" "it + 1 \<le> e" "e \<le> length (iter_swap c it r)"
        "j + 1 \<le> length u"
        using Suc.prems ite jl by (simp_all add: length_iter_swap)
      have pre6: "\<forall>k. j + 1 \<le> k \<and> k < length u \<longrightarrow> it + 1 \<le> u ! k \<and> u ! k < e"
        using later by blast
      from Suc.hyps(1) [OF m pre asc pre6]
      obtain c' where res: "uniquify_loop (iter_swap c it r) u e (it + 1) (j + 1) (r + 1)
                              = Some (c', r + 1 + (length u - (j + 1)))"
        and vals: "\<forall>k<length u - (j + 1). c' ! (r + 1 + k) = iter_swap c it r ! (u ! (j + 1 + k))"
        by blast
      from uniquify_loop_returns [OF pre(1-3), of u "j + 1"] res
      have fr: "\<forall>n. n < r + 1 \<or> e \<le> n \<longrightarrow> c' ! n = iter_swap c it r ! n" by simp
      have "c' ! (r + k) = c ! (u ! (j + k))" if k: "k < length u - j" for k
      proof (cases k)
        case 0
        have "c' ! r = iter_swap c it r ! r" using fr by simp
        also have "\<dots> = c ! it" using Suc.prems ite by (intro nth_iter_swap_target) simp_all
        finally show ?thesis using 0 True by simp
      next
        case (Suc k')
        have "c' ! (r + 1 + k') = iter_swap c it r ! (u ! (j + 1 + k'))"
          using vals k Suc by simp
        also have "\<dots> = c ! (u ! (j + 1 + k'))"
        proof (rule nth_iter_swap_other)
          have "it + 1 \<le> u ! (j + 1 + k')" using later [of "j + 1 + k'"] k Suc by simp
          then show "u ! (j + 1 + k') \<noteq> it" "u ! (j + 1 + k') \<noteq> r" using Suc.prems(1) by simp_all
        qed
        finally show ?thesis using Suc by simp
      qed
      moreover have "r + 1 + (length u - (j + 1)) = r + (length u - j)" using jl by simp
      ultimately show ?thesis using step res by simp
    next
      case no: False
      have step: "uniquify_loop c u e it j r = uniquify_loop c u e (it + 1) j r"
        using uniquify_loop.simps [of c u e it j r] False ite no by simp
      have pre: "r \<le> it + 1" "it + 1 \<le> e" "e \<le> length c" "j \<le> length u"
        using Suc.prems ite by simp_all
      have pre6: "\<forall>k. j \<le> k \<and> k < length u \<longrightarrow> it + 1 \<le> u ! k \<and> u ! k < e"
      proof (intro allI impI)
        fix k assume k: "j \<le> k \<and> k < length u"
        have "u ! j \<le> u ! k"
        proof (cases "j = k")
          case True then show ?thesis by simp
        next
          case False
          with k have "j < k" by simp
          then have "u ! j < u ! k" using asc k by (simp add: sorted_wrt_iff_nth_less)
          then show ?thesis by simp
        qed
        moreover have "it \<le> u ! j" using Suc.prems(6) jl by simp
        moreover have "u ! k < e" using Suc.prems(6) k by simp
        ultimately show "it + 1 \<le> u ! k \<and> u ! k < e" using no by simp
      qed
      from Suc.hyps(1) [OF m pre asc pre6] step show ?thesis by simp
    qed
  qed
qed

subsection \<open>The unstable position markers\<close>

lemma unstable_sorted:
  assumes spec: "std_sort_spec srt" and con: "consistent cmp equalPred"
  shows "mset (srt (\<lambda>a b. cmp (c ! a) (c ! b)) v) = mset v"
    and "sorted_wrt (\<lambda>a b. \<not> cmp (c ! b) (c ! a)) (srt (\<lambda>a b. cmp (c ! a) (c ! b)) v)"
proof -
  have "strict_weak_order (\<lambda>a b. cmp (c ! a) (c ! b))"
    by (rule strict_weak_order_deref [OF consistent_swo [OF con]])
  with spec show "mset (srt (\<lambda>a b. cmp (c ! a) (c ! b)) v) = mset v"
    and "sorted_wrt (\<lambda>a b. \<not> cmp (c ! b) (c ! a)) (srt (\<lambda>a b. cmp (c ! a) (c ! b)) v)"
    unfolding std_sort_spec_def by blast+
qed

lemma unstable_unique_iterators_ascending:
  assumes "std_sort_spec srt" and "consistent cmp equalPred"
  shows "sorted_wrt (<) (unstable_unique_iterators srt c b e cmp equalPred)"
  unfolding unstable_unique_iterators_def Let_def
  by (rule pipeline_ascending [of _ "[b..<e]"]) (simp_all add: unstable_sorted(1) [OF assms])

lemma unstable_unique_iterators_subset:
  assumes "std_sort_spec srt" and "consistent cmp equalPred"
  shows "set (unstable_unique_iterators srt c b e cmp equalPred) \<subseteq> {b..<e}"
  unfolding unstable_unique_iterators_def Let_def
  using pipeline_subset [of _ "[b..<e]", OF unstable_sorted(1) [OF assms]] by simp

lemma unstable_unique_iterators_cover:
  assumes "std_sort_spec srt" and "consistent cmp equalPred" and "i \<in> {b..<e}"
  shows "\<exists>q\<in>set (unstable_unique_iterators srt c b e cmp equalPred). equalPred (c ! q) (c ! i)"
  unfolding unstable_unique_iterators_def Let_def
  using pipeline_cover [OF consistent_deref [OF assms(2), of c] unstable_sorted(1) [OF assms(1,2)],
      of i "[b..<e]"] assms(3) by simp

lemma unstable_unique_iterators_inequivalent:
  assumes spec: "std_sort_spec srt" and con: "consistent cmp equalPred"
    and x: "x \<in> set (unstable_unique_iterators srt c b e cmp equalPred)"
    and y: "y \<in> set (unstable_unique_iterators srt c b e cmp equalPred)"
    and xy: "equalPred (c ! x) (c ! y)"
  shows "x = y"
  using pipeline_inequivalent [OF consistent_deref [OF con, of c] unstable_sorted(2) [OF spec con]
      _ _ xy] x y
  unfolding unstable_unique_iterators_def Let_def by blast

subsection \<open>A sort that is not stable\<close>

lemma sorted_insert_weak:
  assumes swo: "strict_weak_order lt"
  shows "sorted_wrt (\<lambda>a b. \<not> lt b a) ys \<Longrightarrow> sorted_wrt (\<lambda>a b. \<not> lt b a) (stable_insert lt x ys)"
proof (induction ys)
  case Nil
  then show ?case by simp
next
  case (Cons y ys)
  show ?case
  proof (cases "lt y x")
    case True
    then have "\<not> lt x y" by (rule swo_asym [OF swo])
    with True Cons show ?thesis by (simp add: set_stable_insert)
  next
    case False
    have "\<not> lt z x" if z: "z \<in> set ys" for z
    proof
      assume "lt z x"
      from swo_cotrans [OF swo this, of y] False have "lt z y" by blast
      moreover have "\<not> lt z y" using Cons.prems z by simp
      ultimately show False by blast
    qed
    with False Cons.prems show ?thesis by simp
  qed
qed

lemma mset_foldl_insert:
  "mset (foldl (\<lambda>acc x. stable_insert lt x acc) acc v) = mset acc + mset v"
  by (induction v arbitrary: acc) (simp_all add: mset_stable_insert)

lemma sorted_foldl_insert:
  assumes swo: "strict_weak_order lt"
  shows "sorted_wrt (\<lambda>a b. \<not> lt b a) acc
           \<Longrightarrow> sorted_wrt (\<lambda>a b. \<not> lt b a) (foldl (\<lambda>acc x. stable_insert lt x acc) acc v)"
proof (induction v arbitrary: acc)
  case Nil
  then show ?case by simp
next
  case (Cons x v)
  have "sorted_wrt (\<lambda>a b. \<not> lt b a) (stable_insert lt x acc)"
    using Cons.prems by (rule sorted_insert_weak [OF swo])
  then show ?case using Cons.IH by simp
qed

lemma reversing_sort_spec: "std_sort_spec reversing_sort"
  unfolding std_sort_spec_def reversing_sort_def
proof (intro allI impI conjI)
  fix lt :: "'a \<Rightarrow> 'a \<Rightarrow> bool" and v
  show "mset (foldl (\<lambda>acc x. stable_insert lt x acc) [] v) = mset v"
    by (simp add: mset_foldl_insert)
  assume "strict_weak_order lt"
  then show "sorted_wrt (\<lambda>a b. \<not> lt b a) (foldl (\<lambda>acc x. stable_insert lt x acc) [] v)"
    by (rule sorted_foldl_insert) simp
qed

subsection \<open>The range form of stable_uniquify\<close>

lemma stable_uniquify_result:
  assumes be: "b \<le> e" and el: "e \<le> length c"
  shows "\<exists>c'. stable_uniquify c b e cmp equalPred
                = Some (c', b + length (stable_unique_iterators c b e cmp equalPred)) \<and>
           (\<forall>k<length (stable_unique_iterators c b e cmp equalPred).
              c' ! (b + k) = c ! (stable_unique_iterators c b e cmp equalPred ! k)) \<and>
           length c' = length c \<and> mset c' = mset c \<and>
           (\<forall>n. n < b \<or> e \<le> n \<longrightarrow> c' ! n = c ! n)"
proof -
  let ?u = "stable_unique_iterators c b e cmp equalPred"
  have asc: "sorted_wrt (<) ?u" by (rule stable_unique_iterators_ascending)
  have rng: "\<forall>k. 0 \<le> k \<and> k < length ?u \<longrightarrow> b \<le> ?u ! k \<and> ?u ! k < e"
  proof (intro allI impI)
    fix k assume "0 \<le> k \<and> k < length ?u"
    then have "?u ! k \<in> set ?u" by simp
    with stable_unique_iterators_subset [of c b e cmp equalPred] show "b \<le> ?u ! k \<and> ?u ! k < e"
      by auto
  qed
  from uniquify_loop_values [of b b e c 0 ?u] be el asc rng
  obtain c' where res: "uniquify_loop c ?u e b 0 b = Some (c', b + length ?u)"
    and vals: "\<forall>k<length ?u. c' ! (b + k) = c ! (?u ! k)" by auto
  from uniquify_loop_returns [of b b e c ?u 0] be el res
  have "length c' = length c \<and> mset c' = mset c \<and> (\<forall>n. n < b \<or> e \<le> n \<longrightarrow> c' ! n = c ! n)"
    by simp
  with res vals show ?thesis unfolding stable_uniquify_def Let_def by blast
qed

lemma range_split:
  assumes "b \<le> e"
  shows "c = take b c @ take (e - b) (drop b c) @ drop e c"
proof -
  have "drop (e - b) (drop b c) = drop e c" using assms by simp
  then have "drop b c = take (e - b) (drop b c) @ drop e c"
    using append_take_drop_id [of "e - b" "drop b c"] by simp
  then show ?thesis using append_take_drop_id [of b c] by simp
qed

lemma mset_range_unchanged:
  assumes be: "b \<le> e" and len: "length c' = length c" and ms: "mset c' = mset c"
    and fr: "\<forall>n. n < b \<or> e \<le> n \<longrightarrow> c' ! n = c ! n"
  shows "mset (take (e - b) (drop b c')) = mset (take (e - b) (drop b c))"
proof -
  have t: "take b c' = take b c"
    using len fr by (intro nth_equalityI) simp_all
  have d: "drop e c' = drop e c"
    using len fr by (intro nth_equalityI) simp_all
  have "mset c' = mset (take b c') + mset (take (e - b) (drop b c')) + mset (drop e c')"
    using arg_cong [OF range_split [OF be, of c'], of mset] by simp
  moreover have "mset c = mset (take b c) + mset (take (e - b) (drop b c)) + mset (drop e c)"
    using arg_cong [OF range_split [OF be, of c], of mset] by simp
  ultimately show ?thesis using ms t d by simp
qed

subsection \<open>Ranges without duplicates\<close>

lemma unique_from_id:
  "distinct (k # xs) \<Longrightarrow> \<forall>x\<in>set (k # xs). \<forall>y\<in>set (k # xs). x \<noteq> y \<longrightarrow> \<not> p x y
     \<Longrightarrow> unique_from p k xs = xs"
proof (induction xs arbitrary: k)
  case Nil
  then show ?case by simp
next
  case (Cons x xs)
  have "k \<noteq> x" using Cons.prems(1) by auto
  then have "\<not> p k x" using Cons.prems(2) by simp
  moreover have "unique_from p x xs = xs"
  proof (rule Cons.IH)
    show "distinct (x # xs)" using Cons.prems(1) by simp
    show "\<forall>a\<in>set (x # xs). \<forall>y\<in>set (x # xs). a \<noteq> y \<longrightarrow> \<not> p a y"
      using Cons.prems(2) by simp
  qed
  ultimately show ?case by simp
qed

lemma std_unique_id:
  "distinct xs \<Longrightarrow> \<forall>x\<in>set xs. \<forall>y\<in>set xs. x \<noteq> y \<longrightarrow> \<not> p x y \<Longrightarrow> std_unique p xs = xs"
  using unique_from_id [of _ _ p] by (cases xs) simp_all

lemma stable_unique_iterators_no_duplicates:
  assumes "\<forall>i\<in>{b..<e}. \<forall>j\<in>{b..<e}. i \<noteq> j \<longrightarrow> \<not> equalPred (c ! i) (c ! j)"
  shows "stable_unique_iterators c b e cmp equalPred = [b..<e]"
proof -
  let ?s = "std_stable_sort (\<lambda>a b. cmp (c ! a) (c ! b)) [b..<e]"
  have set: "set ?s = {b..<e}" by (simp add: set_std_stable_sort)
  have dist: "distinct ?s"
    using mset_std_stable_sort [of "\<lambda>a b. cmp (c ! a) (c ! b)" "[b..<e]"]
    by (metis distinct_upt mset_eq_imp_distinct_iff)
  have "std_unique (\<lambda>a b. equalPred (c ! a) (c ! b)) ?s = ?s"
    using assms set by (intro std_unique_id [OF dist]) simp
  then have r: "stable_unique_iterators c b e cmp equalPred = std_sort_iterators ?s"
    by (simp add: stable_unique_iterators_def)
  show ?thesis unfolding r
  proof (rule ascending_unique)
    show "sorted_wrt (<) (std_sort_iterators ?s)" by (rule ascending_std_sort_iterators [OF dist])
    show "sorted_wrt (<) [b..<e]" by (simp add: strict_sorted_iff)
    show "set (std_sort_iterators ?s) = set [b..<e]" using set by (simp add: set_std_sort_iterators)
  qed
qed

subsection \<open>Deduplicating a whole container\<close>

lemma stable_uniquify_whole:
  "\<exists>c'. stable_uniquify c 0 (length c) cmp equalPred
            = Some (c', length (stable_unique_iterators c 0 (length c) cmp equalPred)) \<and>
         take (length (stable_unique_iterators c 0 (length c) cmp equalPred)) c'
            = map ((!) c) (stable_unique_iterators c 0 (length c) cmp equalPred)"
proof -
  let ?u = "stable_unique_iterators c 0 (length c) cmp equalPred"
  from stable_uniquify_result [of 0 "length c" c cmp equalPred]
  obtain c' where res: "stable_uniquify c 0 (length c) cmp equalPred = Some (c', length ?u)"
    and vals: "\<forall>k<length ?u. c' ! k = c ! (?u ! k)" and len: "length c' = length c"
    by auto
  have "length ?u \<le> length c" using stable_unique_iterators_length [of c 0 "length c"] by simp
  with len vals have "take (length ?u) c' = map ((!) c) ?u"
    by (intro nth_equalityI) simp_all
  with res show ?thesis by blast
qed

lemma stable_uniquify_no_duplicates:
  assumes "\<forall>i\<in>{0..<length c}. \<forall>j\<in>{0..<length c}. i \<noteq> j \<longrightarrow> \<not> equalPred (c ! i) (c ! j)"
  shows "stable_uniquify c 0 (length c) cmp equalPred = Some (c, length c)"
proof -
  have u: "stable_unique_iterators c 0 (length c) cmp equalPred = [0..<length c]"
    using assms by (rule stable_unique_iterators_no_duplicates)
  from stable_uniquify_result [of 0 "length c" c cmp equalPred]
  obtain c' where res: "stable_uniquify c 0 (length c) cmp equalPred = Some (c', length c)"
    and vals: "\<forall>k<length c. c' ! k = c ! k" and len: "length c' = length c"
    unfolding u by auto
  from len vals have "c' = c" by (intro nth_equalityI) simp_all
  with res show ?thesis by simp
qed

lemma first_occurrences_inequivalent:
  assumes con: "consistent cmp equalPred"
    and ys: "ys = map ((!) c) (stable_unique_iterators c b e cmp equalPred)"
  shows "\<forall>i\<in>{0..<length ys}. \<forall>j\<in>{0..<length ys}. i \<noteq> j \<longrightarrow> \<not> equalPred (ys ! i) (ys ! j)"
proof (intro ballI impI)
  let ?u = "stable_unique_iterators c b e cmp equalPred"
  fix i j assume i: "i \<in> {0..<length ys}" and j: "j \<in> {0..<length ys}" and ij: "i \<noteq> j"
  have dist: "distinct ?u"
    using stable_unique_iterators_ascending [of c b e cmp equalPred]
    by (simp add: strict_sorted_iff)
  show "\<not> equalPred (ys ! i) (ys ! j)"
  proof
    assume "equalPred (ys ! i) (ys ! j)"
    then have "equalPred (c ! (?u ! i)) (c ! (?u ! j))" using i j ys by simp
    moreover have "?u ! i \<in> set ?u" "?u ! j \<in> set ?u" using i j ys by simp_all
    ultimately have "?u ! i = ?u ! j" using stable_unique_iterators_inequivalent [OF con] by blast
    with dist i j ys have "i = j" by (simp add: nth_eq_iff_index_eq)
    with ij show False by simp
  qed
qed

subsection \<open>The vector overload\<close>

lemma stable_uniquify_vector_result:
  "stable_uniquify_vector (Call_operator cmp) v
     = Inr (Some (map ((!) v) (stable_unique_iterators v 0 (length v) cmp (=)),
                  length (stable_unique_iterators v 0 (length v) cmp (=))))"
proof -
  from stable_uniquify_whole [of v cmp "(=)"]
  obtain c' where "stable_uniquify v 0 (length v) cmp (=)
                     = Some (c', length (stable_unique_iterators v 0 (length v) cmp (=)))"
    and "take (length (stable_unique_iterators v 0 (length v) cmp (=))) c'
           = map ((!) v) (stable_unique_iterators v 0 (length v) cmp (=))" by blast
  then show ?thesis by (simp add: stable_uniquify_vector_def)
qed

lemma stable_uniquify_vector_distinct:
  assumes "distinct v"
  shows "stable_uniquify_vector (Call_operator cmp) v = Inr (Some (v, length v))"
proof -
  have "\<forall>i\<in>{0..<length v}. \<forall>j\<in>{0..<length v}. i \<noteq> j \<longrightarrow> v ! i \<noteq> v ! j"
    using assms by (simp add: nth_eq_iff_index_eq)
  then have "stable_uniquify v 0 (length v) cmp (=) = Some (v, length v)"
    by (rule stable_uniquify_no_duplicates)
  then show ?thesis by (simp add: stable_uniquify_vector_def)
qed

lemma distinct_first_occurrences:
  assumes con: "consistent cmp (=)"
  shows "distinct (map ((!) v) (stable_unique_iterators v 0 (length v) cmp (=)))"
proof -
  let ?u = "stable_unique_iterators v 0 (length v) cmp (=)"
  have "distinct ?u"
    using stable_unique_iterators_ascending [of v 0 "length v" cmp "(=)"]
    by (simp add: strict_sorted_iff)
  moreover have "inj_on ((!) v) (set ?u)"
    using stable_unique_iterators_inequivalent [OF con, of _ v 0 "length v"]
    by (intro inj_onI) blast
  ultimately show ?thesis by (simp add: distinct_map)
qed

text \<open>
  With a comparator type for \<open>IteratorAllocator\<close> whose order is consistent with
  \<open>==\<close>, the vector overload leaves the first occurrences in their original order.
\<close>

lemma stable_uniquify_vector_comparator:
  assumes con: "consistent cmp (=)"
  shows "\<exists>v'. stable_uniquify_vector (Call_operator cmp) v = Inr (Some (v', length v')) \<and>
           v' = map ((!) v) (filter (first_occurrence v 0 (=)) [0..<length v]) \<and>
           distinct v' \<and> set v' = set v \<and>
           length v' = card (eq_classes v 0 (length v) (=)) \<and>
           (distinct v \<longrightarrow> v' = v)"
proof -
  let ?u = "stable_unique_iterators v 0 (length v) cmp (=)"
  let ?v' = "map ((!) v) ?u"
  have res: "stable_uniquify_vector (Call_operator cmp) v = Inr (Some (?v', length ?v'))"
    by (simp add: stable_uniquify_vector_result)
  have flt: "?v' = map ((!) v) (filter (first_occurrence v 0 (=)) [0..<length v])"
    by (simp add: stable_unique_iterators_filter [OF con])
  have dist: "distinct ?v'" by (rule distinct_first_occurrences [OF con])
  have sub: "set ?u \<subseteq> {0..<length v}" by (rule stable_unique_iterators_subset)
  have "set ?v' = set v"
  proof (intro equalityI subsetI)
    fix x assume "x \<in> set ?v'"
    then obtain q where "q \<in> set ?u" and "x = v ! q" by auto
    with sub show "x \<in> set v" by auto
  next
    fix x assume "x \<in> set v"
    then obtain i where i: "i \<in> {0..<length v}" and x: "x = v ! i"
      by (auto simp: in_set_conv_nth)
    from stable_unique_iterators_cover [OF con i, of v]
    obtain q where q: "q \<in> set ?u" and qi: "v ! q = v ! i" by blast
    from q have "v ! q \<in> set ?v'" by simp
    with qi x show "x \<in> set ?v'" by simp
  qed
  moreover have "length ?v' = card (eq_classes v 0 (length v) (=))"
  proof -
    have "length ?u = card (eq_classes v 0 (length v) (=))"
    proof (rule one_per_class(2) [OF con _ sub])
      show "distinct ?u"
        using stable_unique_iterators_ascending [of v 0 "length v" cmp "(=)"]
        by (simp add: strict_sorted_iff)
      show "\<exists>q\<in>set ?u. v ! q = v ! i" if "i \<in> {0..<length v}" for i
        using stable_unique_iterators_cover [OF con that] .
      show "x = y" if "x \<in> set ?u" "y \<in> set ?u" "v ! x = v ! y" for x y
        using stable_unique_iterators_inequivalent [OF con that] .
    qed
    then show ?thesis by simp
  qed
  moreover have "distinct v \<longrightarrow> ?v' = v"
    using stable_uniquify_vector_distinct [of v cmp] res by simp
  ultimately show ?thesis using res flt dist by blast
qed

subsection \<open>Ranges of one class, and results of full length\<close>

lemma first_occurrence_begin: "first_occurrence c b equalPred b"
  by (simp add: first_occurrence_def)

lemma stable_unique_iterators_all_equal:
  assumes con: "consistent cmp equalPred" and be: "b < e"
    and all: "\<forall>i\<in>{b..<e}. \<forall>j\<in>{b..<e}. equalPred (c ! i) (c ! j)"
  shows "stable_unique_iterators c b e cmp equalPred = [b]"
proof -
  have "\<not> first_occurrence c b equalPred i" if "i \<in> set [Suc b..<e]" for i
  proof -
    have "b \<in> {b..<i}" "b \<in> {b..<e}" "i \<in> {b..<e}" using that by simp_all
    with all show ?thesis unfolding first_occurrence_def by blast
  qed
  then have "\<forall>i\<in>set [Suc b..<e]. \<not> first_occurrence c b equalPred i" by blast
  then have "filter (first_occurrence c b equalPred) [Suc b..<e] = []"
    by (rule filter_False)
  moreover have "[b..<e] = b # [Suc b..<e]" using be by (rule upt_conv_Cons)
  ultimately have "filter (first_occurrence c b equalPred) [b..<e] = [b]"
    by (simp add: first_occurrence_begin)
  then show ?thesis by (simp add: stable_unique_iterators_filter [OF con])
qed

lemma stable_unique_iterators_full_length:
  assumes con: "consistent cmp equalPred"
    and len: "length (stable_unique_iterators c b e cmp equalPred) = e - b"
    and i: "i \<in> {b..<e}" and j: "j \<in> {b..<e}" and ij: "i \<noteq> j"
  shows "\<not> equalPred (c ! i) (c ! j)"
proof -
  let ?P = "first_occurrence c b equalPred"
  have l: "length (filter ?P [b..<e]) = length [b..<e]"
    using len by (simp add: stable_unique_iterators_filter [OF con])
  have all: "?P x" if "x \<in> set [b..<e]" for x
  proof (rule ccontr)
    assume "\<not> ?P x"
    with that have "length (filter ?P [b..<e]) < length [b..<e]" by (rule length_filter_less)
    with l show False by simp
  qed
  show ?thesis
  proof (cases "i < j")
    case True
    have "?P j" using all j by simp
    moreover have "i \<in> {b..<j}" using True i by simp
    ultimately show ?thesis unfolding first_occurrence_def by blast
  next
    case False
    with ij have ji: "j < i" by simp
    have "?P i" using all i by simp
    moreover have "j \<in> {b..<i}" using ji j by simp
    ultimately have "\<not> equalPred (c ! j) (c ! i)" unfolding first_occurrence_def by blast
    then show ?thesis using consistent_sym [OF con, of "c ! i" "c ! j"] by blast
  qed
qed

section \<open>The claims\<close>

text \<open>
  C1. For a valid range and a comparator and equality predicate that are consistent,
  \<open>stable_unique_iterators\<close> returns position markers in strictly ascending order of
  position, all inside the range; every position of the range has exactly one returned
  marker whose element is equal to its own, so the markers stand for each equivalence
  class exactly once; and every marker is the smallest position of its class, so the
  result is the list of first occurrences. On \<open>[3,1,2,1,3]\<close> with the default
  predicates the markers are 0, 1, 2, referring to the values 3, 1, 2.
\<close>

theorem stable_unique_iterators_first_occurrences:
  assumes con: "consistent cmp equalPred" and "b \<le> e" and "e \<le> length c"
  shows "sorted_wrt (<) (stable_unique_iterators c b e cmp equalPred) \<and>
         set (stable_unique_iterators c b e cmp equalPred) \<subseteq> {b..<e} \<and>
         (\<forall>i\<in>{b..<e}. \<exists>!q. q \<in> set (stable_unique_iterators c b e cmp equalPred) \<and>
                                 equalPred (c ! q) (c ! i)) \<and>
         image_mset (eq_class c b e equalPred) (mset (stable_unique_iterators c b e cmp equalPred))
           = mset_set (eq_classes c b e equalPred) \<and>
         (\<forall>q\<in>set (stable_unique_iterators c b e cmp equalPred).
            \<forall>j\<in>{b..<e}. equalPred (c ! j) (c ! q) \<longrightarrow> q \<le> j) \<and>
         stable_unique_iterators c b e cmp equalPred
           = filter (first_occurrence c b equalPred) [b..<e] \<and>
         stable_unique_iterators [3, 1, 2, 1, 3 :: int] 0 5 (<) (=) = [0, 1, 2] \<and>
         map ((!) [3, 1, 2, 1, 3 :: int]) (stable_unique_iterators [3, 1, 2, 1, 3 :: int] 0 5 (<) (=))
           = [3, 1, 2]"
proof -
  let ?r = "stable_unique_iterators c b e cmp equalPred"
  have asc: "sorted_wrt (<) ?r" by (rule stable_unique_iterators_ascending)
  have sub: "set ?r \<subseteq> {b..<e}" by (rule stable_unique_iterators_subset)
  have one: "\<exists>!q. q \<in> set ?r \<and> equalPred (c ! q) (c ! i)" if i: "i \<in> {b..<e}" for i
  proof -
    from stable_unique_iterators_cover [OF con i]
    obtain q where q: "q \<in> set ?r" "equalPred (c ! q) (c ! i)" by blast
    have "q' = q" if q': "q' \<in> set ?r \<and> equalPred (c ! q') (c ! i)" for q'
    proof -
      have "equalPred (c ! q') (c ! q)"
        using consistent_trans [OF con, of "c ! q'" "c ! i" "c ! q"] q'
          consistent_sym [OF con q(2)] by blast
      with stable_unique_iterators_inequivalent [OF con _ q(1)] q' show ?thesis by blast
    qed
    with q show ?thesis by blast
  qed
  have cls: "image_mset (eq_class c b e equalPred) (mset ?r) = mset_set (eq_classes c b e equalPred)"
  proof (rule one_per_class(1) [OF con _ sub])
    show "distinct ?r" using asc by (simp add: strict_sorted_iff)
    show "\<exists>q\<in>set ?r. equalPred (c ! q) (c ! i)" if "i \<in> {b..<e}" for i
      using stable_unique_iterators_cover [OF con that] .
    show "x = y" if "x \<in> set ?r" "y \<in> set ?r" "equalPred (c ! x) (c ! y)" for x y
      using stable_unique_iterators_inequivalent [OF con that] .
  qed
  have first: "\<forall>q\<in>set ?r. \<forall>j\<in>{b..<e}. equalPred (c ! j) (c ! q) \<longrightarrow> q \<le> j"
    using stable_unique_iterators_first [OF con] by blast
  have flt: "?r = filter (first_occurrence c b equalPred) [b..<e]"
    by (rule stable_unique_iterators_filter [OF con])
  have ex: "stable_unique_iterators [3, 1, 2, 1, 3 :: int] 0 5 (<) (=) = [0, 1, 2]"
    by code_simp
  have vals: "map ((!) [3, 1, 2, 1, 3 :: int]) (stable_unique_iterators [3, 1, 2, 1, 3 :: int] 0 5 (<) (=))
                = [3, 1, 2]"
    unfolding ex by simp
  from asc sub one cls first flt ex vals show ?thesis by blast
qed

theorem stable_unique_iterators_first_occurrences_witness:
  "consistent ((<) :: int \<Rightarrow> int \<Rightarrow> bool) (=) \<and> (0 :: nat) \<le> 5 \<and>
   5 \<le> length [3, 1, 2, 1, 3 :: int] \<and>
   stable_unique_iterators [3, 1, 2, 1, 3 :: int] 0 5 (<) (=)
     = filter (first_occurrence [3, 1, 2, 1, 3 :: int] 0 (=)) [0..<5] \<and>
   sorted_wrt (<) (stable_unique_iterators [3, 1, 2, 1, 3 :: int] 0 5 (<) (=)) \<and>
   image_mset (eq_class [3, 1, 2, 1, 3 :: int] 0 5 (=))
       (mset (stable_unique_iterators [3, 1, 2, 1, 3 :: int] 0 5 (<) (=)))
     = mset_set (eq_classes [3, 1, 2, 1, 3 :: int] 0 5 (=))"
proof -
  have h1: "consistent ((<) :: int \<Rightarrow> int \<Rightarrow> bool) (=)" by (rule consistent_linorder)
  have h2: "(0 :: nat) \<le> 5" by simp
  have h3: "5 \<le> length [3, 1, 2, 1, 3 :: int]" by simp
  from stable_unique_iterators_first_occurrences [OF h1 h2 h3] h1 h2 h3 show ?thesis by blast
qed

text \<open>
  C2. For a valid range and consistent predicates the range form of \<open>stable_uniquify\<close>
  returns, and returns the position \<open>r = begin +\<close> the number of equivalence classes of the
  range. Afterwards the elements at \<open>[begin, r)\<close> are the first occurrences of the original
  range, in their original order, and every element of the original range is equal to
  exactly one of them.
\<close>

theorem stable_uniquify_unique_prefix:
  assumes con: "consistent cmp equalPred" and be: "b \<le> e" and el: "e \<le> length c"
  shows "\<exists>c' r. stable_uniquify c b e cmp equalPred = Some (c', r) \<and>
           r = b + card (eq_classes c b e equalPred) \<and> r \<le> e \<and>
           map ((!) c') [b..<r] = map ((!) c) (filter (first_occurrence c b equalPred) [b..<e]) \<and>
           (\<forall>i\<in>{b..<e}. \<exists>!k. k \<in> {b..<r} \<and> equalPred (c' ! k) (c ! i))"
proof -
  let ?u = "stable_unique_iterators c b e cmp equalPred"
  from stable_uniquify_result [OF be el, of cmp equalPred]
  obtain c' where res: "stable_uniquify c b e cmp equalPred = Some (c', b + length ?u)"
    and vals: "\<forall>k<length ?u. c' ! (b + k) = c ! (?u ! k)" by blast
  have asc: "sorted_wrt (<) ?u" by (rule stable_unique_iterators_ascending)
  then have dist: "distinct ?u" by (simp add: strict_sorted_iff)
  have sub: "set ?u \<subseteq> {b..<e}" by (rule stable_unique_iterators_subset)
  have card: "length ?u = card (eq_classes c b e equalPred)"
  proof (rule one_per_class(2) [OF con dist sub])
    show "\<exists>q\<in>set ?u. equalPred (c ! q) (c ! i)" if "i \<in> {b..<e}" for i
      using stable_unique_iterators_cover [OF con that] .
    show "x = y" if "x \<in> set ?u" "y \<in> set ?u" "equalPred (c ! x) (c ! y)" for x y
      using stable_unique_iterators_inequivalent [OF con that] .
  qed
  have le: "b + length ?u \<le> e"
    using stable_unique_iterators_length [of c b e cmp equalPred] be by simp
  have "map ((!) c') [b..<b + length ?u] = map ((!) c) ?u"
    using vals by (intro nth_equalityI) simp_all
  then have prefix: "map ((!) c') [b..<b + length ?u]
                       = map ((!) c) (filter (first_occurrence c b equalPred) [b..<e])"
    by (simp add: stable_unique_iterators_filter [OF con])
  have one: "\<exists>!k. k \<in> {b..<b + length ?u} \<and> equalPred (c' ! k) (c ! i)"
    if i: "i \<in> {b..<e}" for i
  proof -
    from stable_unique_iterators_cover [OF con i]
    obtain q where q: "q \<in> set ?u" and qi: "equalPred (c ! q) (c ! i)" by blast
    then obtain n where n: "n < length ?u" and un: "?u ! n = q" by (auto simp: in_set_conv_nth)
    have here: "b + n \<in> {b..<b + length ?u} \<and> equalPred (c' ! (b + n)) (c ! i)"
      using n un qi vals by simp
    have "k = b + n" if k: "k \<in> {b..<b + length ?u} \<and> equalPred (c' ! k) (c ! i)" for k
    proof -
      from k obtain m where m: "m < length ?u" and km: "k = b + m"
        by (auto simp: le_iff_add)
      have "equalPred (c ! (?u ! m)) (c ! i)" using k km m vals by simp
      then have "equalPred (c ! (?u ! m)) (c ! q)"
        using consistent_trans [OF con, of "c ! (?u ! m)" "c ! i" "c ! q"]
          consistent_sym [OF con qi] by blast
      moreover have "?u ! m \<in> set ?u" using m by simp
      ultimately have "?u ! m = q" using stable_unique_iterators_inequivalent [OF con _ q] by blast
      with un have "?u ! m = ?u ! n" by simp
      with dist m n have "m = n" by (simp add: nth_eq_iff_index_eq)
      with km show ?thesis by simp
    qed
    with here show ?thesis by blast
  qed
  from res card le prefix one show ?thesis by auto
qed

theorem stable_uniquify_unique_prefix_witness:
  "consistent ((<) :: int \<Rightarrow> int \<Rightarrow> bool) (=) \<and> (1 :: nat) \<le> 7 \<and>
   7 \<le> length [9, 1, 1, 2, 2, 3, 1, 5, 3 :: int] \<and>
   (\<exists>c' r. stable_uniquify [9, 1, 1, 2, 2, 3, 1, 5, 3 :: int] 1 7 (<) (=) = Some (c', r) \<and>
      r = 1 + card (eq_classes [9, 1, 1, 2, 2, 3, 1, 5, 3 :: int] 1 7 (=)) \<and>
      map ((!) c') [1..<r]
        = map ((!) [9, 1, 1, 2, 2, 3, 1, 5, 3 :: int])
            (filter (first_occurrence [9, 1, 1, 2, 2, 3, 1, 5, 3 :: int] 1 (=)) [1..<7])) \<and>
   stable_uniquify [9, 1, 1, 2, 2, 3, 1, 5, 3 :: int] 1 7 (<) (=)
     = Some ([9, 1, 2, 3, 2, 1, 1, 5, 3], 4)"
proof -
  have h1: "consistent ((<) :: int \<Rightarrow> int \<Rightarrow> bool) (=)" by (rule consistent_linorder)
  have h2: "(1 :: nat) \<le> 7" by simp
  have h3: "7 \<le> length [9, 1, 1, 2, 2, 3, 1, 5, 3 :: int]" by simp
  have ev: "stable_uniquify [9, 1, 1, 2, 2, 3, 1, 5, 3 :: int] 1 7 (<) (=)
              = Some ([9, 1, 2, 3, 2, 1, 1, 5, 3], 4)"
    by code_simp
  from stable_uniquify_unique_prefix [OF h1 h2 h3] h1 h2 h3 ev show ?thesis by blast
qed

text \<open>
  C3. For a valid range the range form of \<open>stable_uniquify\<close> returns and leaves in
  \<open>[begin, end)\<close> the multiset of values that was there before; the container keeps
  its length and the elements outside the range stay where they were. The loop only
  exchanges elements of the range, whatever markers it is given, so this needs nothing
  of the comparator and the equality predicate, and holds for consistent ones in
  particular.
\<close>

theorem stable_uniquify_preserves_values:
  assumes be: "b \<le> e" and el: "e \<le> length c"
  shows "\<exists>c' r. stable_uniquify c b e cmp equalPred = Some (c', r) \<and>
           mset (take (e - b) (drop b c')) = mset (take (e - b) (drop b c)) \<and>
           length c' = length c \<and> (\<forall>n. n < b \<or> e \<le> n \<longrightarrow> c' ! n = c ! n)"
proof -
  from stable_uniquify_result [OF be el, of cmp equalPred]
  obtain c' r where res: "stable_uniquify c b e cmp equalPred = Some (c', r)"
    and len: "length c' = length c" and ms: "mset c' = mset c"
    and fr: "\<forall>n. n < b \<or> e \<le> n \<longrightarrow> c' ! n = c ! n" by blast
  from mset_range_unchanged [OF be len ms fr] res len fr show ?thesis by blast
qed

theorem stable_uniquify_preserves_values_witness:
  "(1 :: nat) \<le> 7 \<and> 7 \<le> length [9, 1, 1, 2, 2, 3, 1, 5, 3 :: int] \<and>
   (\<exists>c' r. stable_uniquify [9, 1, 1, 2, 2, 3, 1, 5, 3 :: int] 1 7 (<) (=) = Some (c', r) \<and>
      mset (take (7 - 1) (drop 1 c')) = mset (take (7 - 1) (drop 1 [9, 1, 1, 2, 2, 3, 1, 5, 3])) \<and>
      length c' = length [9, 1, 1, 2, 2, 3, 1, 5, 3 :: int])"
proof -
  have h2: "(1 :: nat) \<le> 7" by simp
  have h3: "7 \<le> length [9, 1, 1, 2, 2, 3, 1, 5, 3 :: int]" by simp
  from stable_uniquify_preserves_values [OF h2 h3, of "(<)" "(=)"] h2 h3 show ?thesis by blast
qed

text \<open>
  C4. The claim is that for every vector the vector overload leaves the first
  occurrences of the original contents, in their original order, and erases the rest.
  As the overload is written it cannot be called with its default template argument,
  whatever the vector: \<open>std::allocator\<close> is taken for the comparator type and has no
  call operator, so the call is ill-formed, for \<open>[3,1,2,1,3]\<close> as for every vector.
  With \<open>std::less\<close> given for \<open>IteratorAllocator\<close> the overload leaves \<open>[3,1,2]\<close> of
  \<open>[3,1,2,1,3]\<close> and returns position 3.
\<close>

theorem stable_uniquify_vector_default_argument:
  "stable_uniquify_vector std_allocator v = Inl No_match_for_call \<and>
   stable_uniquify_vector std_allocator [3, 1, 2, 1, 3 :: int] = Inl No_match_for_call \<and>
   stable_uniquify_vector std_less [3, 1, 2, 1, 3 :: int] = Inr (Some ([3, 1, 2], 3))"
proof (intro conjI)
  show "stable_uniquify_vector std_allocator v = Inl No_match_for_call"
    by (simp add: stable_uniquify_vector_def std_allocator_def)
  show "stable_uniquify_vector std_allocator [3, 1, 2, 1, 3 :: int] = Inl No_match_for_call"
    by (simp add: stable_uniquify_vector_def std_allocator_def)
  show "stable_uniquify_vector std_less [3, 1, 2, 1, 3 :: int] = Inr (Some ([3, 1, 2], 3))"
    by code_simp
qed

text \<open>
  C5. Stable deduplication is idempotent, for any consistent predicates. The elements
  referred to by the markers of \<open>stable_unique_iterators\<close> form a sequence of which
  \<open>stable_unique_iterators\<close> keeps every position. The range form over a whole
  container, followed by the erasure of what is behind the position it returns, leaves
  a container on which the same two steps return the same position and leave the same
  container. So does the vector overload, for every comparator type given for
  \<open>IteratorAllocator\<close> whose order is consistent with \<open>==\<close>.
\<close>

theorem stable_uniquify_idempotent:
  fixes c :: "'a list" and v :: "'b list"
  shows "(consistent cmp equalPred \<longrightarrow>
            (let ys = map ((!) c) (stable_unique_iterators c 0 (length c) cmp equalPred)
             in stable_unique_iterators ys 0 (length ys) cmp equalPred = [0..<length ys] \<and>
                map ((!) ys) (stable_unique_iterators ys 0 (length ys) cmp equalPred) = ys)) \<and>
         (consistent cmp equalPred \<longrightarrow>
            (\<exists>c' r. stable_uniquify c 0 (length c) cmp equalPred = Some (c', r) \<and>
               stable_uniquify (take r c') 0 (length (take r c')) cmp equalPred
                 = Some (take r c', r))) \<and>
         (consistent lt (=) \<longrightarrow>
            (\<exists>v' r. stable_uniquify_vector (Call_operator lt) v = Inr (Some (v', r)) \<and>
               stable_uniquify_vector (Call_operator lt) v' = Inr (Some (v', r))))"
proof (intro conjI impI)
  assume con: "consistent cmp equalPred"
  let ?u = "stable_unique_iterators c 0 (length c) cmp equalPred"
  let ?ys = "map ((!) c) ?u"
  have nodup: "\<forall>i\<in>{0..<length ?ys}. \<forall>j\<in>{0..<length ?ys}. i \<noteq> j \<longrightarrow> \<not> equalPred (?ys ! i) (?ys ! j)"
    by (rule first_occurrences_inequivalent [OF con refl])
  then have all: "stable_unique_iterators ?ys 0 (length ?ys) cmp equalPred = [0..<length ?ys]"
    by (rule stable_unique_iterators_no_duplicates)
  have "map ((!) ?ys) [0..<length ?ys] = ?ys" by (rule map_nth)
  with all show "let ys = ?ys
     in stable_unique_iterators ys 0 (length ys) cmp equalPred = [0..<length ys] \<and>
        map ((!) ys) (stable_unique_iterators ys 0 (length ys) cmp equalPred) = ys"
    unfolding Let_def by simp
  from stable_uniquify_whole [of c cmp equalPred]
  obtain c' where res: "stable_uniquify c 0 (length c) cmp equalPred = Some (c', length ?u)"
    and tk: "take (length ?u) c' = ?ys" by blast
  have "stable_uniquify ?ys 0 (length ?ys) cmp equalPred = Some (?ys, length ?ys)"
    using nodup by (rule stable_uniquify_no_duplicates)
  then have "stable_uniquify (take (length ?u) c') 0 (length (take (length ?u) c')) cmp equalPred
               = Some (take (length ?u) c', length ?u)"
    unfolding tk by simp
  with res show "\<exists>c' r. stable_uniquify c 0 (length c) cmp equalPred = Some (c', r) \<and>
      stable_uniquify (take r c') 0 (length (take r c')) cmp equalPred = Some (take r c', r)"
    by blast
next
  assume con: "consistent lt (=)"
  let ?v' = "map ((!) v) (stable_unique_iterators v 0 (length v) lt (=))"
  have "stable_uniquify_vector (Call_operator lt) v = Inr (Some (?v', length ?v'))"
    by (simp add: stable_uniquify_vector_result)
  moreover have "stable_uniquify_vector (Call_operator lt) ?v' = Inr (Some (?v', length ?v'))"
    by (rule stable_uniquify_vector_distinct [OF distinct_first_occurrences [OF con]])
  ultimately show "\<exists>v' r. stable_uniquify_vector (Call_operator lt) v = Inr (Some (v', r)) \<and>
                     stable_uniquify_vector (Call_operator lt) v' = Inr (Some (v', r))"
    by blast
qed

theorem stable_uniquify_idempotent_witness:
  "consistent ((<) :: int \<Rightarrow> int \<Rightarrow> bool) (=) \<and>
   (let ys = map ((!) [3, 1, 2, 1, 3 :: int])
               (stable_unique_iterators [3, 1, 2, 1, 3 :: int] 0 (length [3, 1, 2, 1, 3 :: int]) (<) (=))
    in stable_unique_iterators ys 0 (length ys) (<) (=) = [0..<length ys] \<and>
       map ((!) ys) (stable_unique_iterators ys 0 (length ys) (<) (=)) = ys) \<and>
   (\<exists>c' r. stable_uniquify [3, 1, 2, 1, 3 :: int] 0 (length [3, 1, 2, 1, 3 :: int]) (<) (=)
              = Some (c', r) \<and>
      stable_uniquify (take r c') 0 (length (take r c')) (<) (=) = Some (take r c', r)) \<and>
   (\<exists>v' r. stable_uniquify_vector (Call_operator (<)) [3, 1, 2, 1, 3 :: int] = Inr (Some (v', r)) \<and>
      stable_uniquify_vector (Call_operator (<)) v' = Inr (Some (v', r))) \<and>
   stable_uniquify [3, 1, 2, 1, 3 :: int] 0 5 (<) (=) = Some ([3, 1, 2, 1, 3], 3) \<and>
   stable_uniquify [3, 1, 2 :: int] 0 3 (<) (=) = Some ([3, 1, 2], 3)"
proof -
  have h: "consistent ((<) :: int \<Rightarrow> int \<Rightarrow> bool) (=)" by (rule consistent_linorder)
  have e1: "stable_uniquify [3, 1, 2, 1, 3 :: int] 0 5 (<) (=) = Some ([3, 1, 2, 1, 3], 3)"
    by code_simp
  have e2: "stable_uniquify [3, 1, 2 :: int] 0 3 (<) (=) = Some ([3, 1, 2], 3)" by code_simp
  note T = stable_uniquify_idempotent
    [of "(<)" "(=)" "[3, 1, 2, 1, 3 :: int]" "(<)" "[3, 1, 2, 1, 3 :: int]"]
  from h T [THEN conjunct1, THEN mp, OF h] T [THEN conjunct2, THEN conjunct1, THEN mp, OF h]
    T [THEN conjunct2, THEN conjunct2, THEN mp, OF h] e1 e2
  show ?thesis by (intro conjI)
qed

text \<open>
  C6. For a valid range, consistent predicates and any sorting algorithm that meets the
  postcondition of \<open>std::sort\<close>, \<open>unstable_unique_iterators\<close> returns position markers
  in strictly ascending order of position, each a position of the range, and every
  position of the range has exactly one returned marker whose element is equal to its
  own: one marker per equivalence class, as many markers as classes. Which member of a
  class is returned depends on the sorting algorithm.
\<close>

theorem unstable_unique_iterators_one_per_class:
  assumes spec: "std_sort_spec srt" and con: "consistent cmp equalPred"
    and "b \<le> e" and "e \<le> length c"
  shows "sorted_wrt (<) (unstable_unique_iterators srt c b e cmp equalPred) \<and>
         set (unstable_unique_iterators srt c b e cmp equalPred) \<subseteq> {b..<e} \<and>
         (\<forall>i\<in>{b..<e}. \<exists>!q. q \<in> set (unstable_unique_iterators srt c b e cmp equalPred) \<and>
                                 equalPred (c ! q) (c ! i)) \<and>
         image_mset (eq_class c b e equalPred)
             (mset (unstable_unique_iterators srt c b e cmp equalPred))
           = mset_set (eq_classes c b e equalPred) \<and>
         length (unstable_unique_iterators srt c b e cmp equalPred)
           = card (eq_classes c b e equalPred)"
proof -
  let ?r = "unstable_unique_iterators srt c b e cmp equalPred"
  have asc: "sorted_wrt (<) ?r" by (rule unstable_unique_iterators_ascending [OF spec con])
  then have dist: "distinct ?r" by (simp add: strict_sorted_iff)
  have sub: "set ?r \<subseteq> {b..<e}" by (rule unstable_unique_iterators_subset [OF spec con])
  have cov: "\<exists>q\<in>set ?r. equalPred (c ! q) (c ! i)" if "i \<in> {b..<e}" for i
    using unstable_unique_iterators_cover [OF spec con that] .
  have ineq: "x = y" if "x \<in> set ?r" "y \<in> set ?r" "equalPred (c ! x) (c ! y)" for x y
    using unstable_unique_iterators_inequivalent [OF spec con that] .
  have one: "\<exists>!q. q \<in> set ?r \<and> equalPred (c ! q) (c ! i)" if i: "i \<in> {b..<e}" for i
  proof -
    from cov [OF i] obtain q where q: "q \<in> set ?r" "equalPred (c ! q) (c ! i)" by blast
    have "q' = q" if q': "q' \<in> set ?r \<and> equalPred (c ! q') (c ! i)" for q'
    proof -
      have "equalPred (c ! q') (c ! q)"
        using consistent_trans [OF con, of "c ! q'" "c ! i" "c ! q"] q'
          consistent_sym [OF con q(2)] by blast
      with ineq [of q' q] q' q(1) show ?thesis by blast
    qed
    with q show ?thesis by blast
  qed
  note cls = one_per_class [OF con dist sub cov ineq]
  from asc sub one cls show ?thesis by blast
qed

theorem unstable_unique_iterators_one_per_class_witness:
  "std_sort_spec (reversing_sort :: (nat \<Rightarrow> nat \<Rightarrow> bool) \<Rightarrow> nat list \<Rightarrow> nat list) \<and>
   consistent ((<) :: int \<Rightarrow> int \<Rightarrow> bool) (=) \<and> (0 :: nat) \<le> 3 \<and>
   3 \<le> length [1, 1, 2 :: int] \<and>
   sorted_wrt (<) (unstable_unique_iterators reversing_sort [1, 1, 2 :: int] 0 3 (<) (=)) \<and>
   length (unstable_unique_iterators reversing_sort [1, 1, 2 :: int] 0 3 (<) (=))
     = card (eq_classes [1, 1, 2 :: int] 0 3 (=)) \<and>
   unstable_unique_iterators reversing_sort [1, 1, 2 :: int] 0 3 (<) (=) = [1, 2]"
proof -
  have h0: "std_sort_spec (reversing_sort :: (nat \<Rightarrow> nat \<Rightarrow> bool) \<Rightarrow> nat list \<Rightarrow> nat list)"
    by (rule reversing_sort_spec)
  have h1: "consistent ((<) :: int \<Rightarrow> int \<Rightarrow> bool) (=)" by (rule consistent_linorder)
  have h2: "(0 :: nat) \<le> 3" by simp
  have h3: "3 \<le> length [1, 1, 2 :: int]" by simp
  have ev: "unstable_unique_iterators reversing_sort [1, 1, 2 :: int] 0 3 (<) (=) = [1, 2]"
    by code_simp
  note T = unstable_unique_iterators_one_per_class [OF h0 h1 h2 h3]
  have t1: "sorted_wrt (<) (unstable_unique_iterators reversing_sort [1, 1, 2 :: int] 0 3 (<) (=))"
    using T by (elim conjE)
  have t2: "length (unstable_unique_iterators reversing_sort [1, 1, 2 :: int] 0 3 (<) (=))
              = card (eq_classes [1, 1, 2 :: int] 0 3 (=))"
    using T by (elim conjE)
  from h0 h1 h2 h3 t1 t2 ev show ?thesis by (intro conjI)
qed

text \<open>
  C7. The edge cases of \<open>stable_unique_iterators\<close>. An empty range gives no marker. A
  range of one element gives that one marker. A range all of whose elements are equal,
  with consistent predicates, gives one marker, the first position of the range;
  \<open>[5,5,5,5]\<close> gives position 0. A range in which no two elements are equal gives all
  its positions in order, whatever the comparator.
\<close>

theorem stable_unique_iterators_edge_cases:
  "stable_unique_iterators c b b cmp equalPred = [] \<and>
   (b < length c \<longrightarrow> stable_unique_iterators c b (b + 1) cmp equalPred = [b]) \<and>
   (consistent cmp equalPred \<and> b < e \<and> e \<le> length c \<and>
      (\<forall>i\<in>{b..<e}. \<forall>j\<in>{b..<e}. equalPred (c ! i) (c ! j))
    \<longrightarrow> stable_unique_iterators c b e cmp equalPred = [b]) \<and>
   (b \<le> e \<and> e \<le> length c \<and>
      (\<forall>i\<in>{b..<e}. \<forall>j\<in>{b..<e}. i \<noteq> j \<longrightarrow> \<not> equalPred (c ! i) (c ! j))
    \<longrightarrow> stable_unique_iterators c b e cmp equalPred = [b..<e]) \<and>
   stable_unique_iterators [5, 5, 5, 5 :: int] 0 4 (<) (=) = [0]"
proof (intro conjI impI)
  show "stable_unique_iterators c b b cmp equalPred = []"
    by (simp add: stable_unique_iterators_def std_stable_sort_def std_sort_iterators_def)
  show "stable_unique_iterators c b (b + 1) cmp equalPred = [b]"
    by (simp add: stable_unique_iterators_def std_stable_sort_def std_sort_iterators_def)
  show "stable_unique_iterators c b e cmp equalPred = [b]"
    if "consistent cmp equalPred \<and> b < e \<and> e \<le> length c \<and>
        (\<forall>i\<in>{b..<e}. \<forall>j\<in>{b..<e}. equalPred (c ! i) (c ! j))"
    using that stable_unique_iterators_all_equal [of cmp equalPred b e c] by blast
  show "stable_unique_iterators c b e cmp equalPred = [b..<e]"
    if "b \<le> e \<and> e \<le> length c \<and>
        (\<forall>i\<in>{b..<e}. \<forall>j\<in>{b..<e}. i \<noteq> j \<longrightarrow> \<not> equalPred (c ! i) (c ! j))"
    using that stable_unique_iterators_no_duplicates [of b e equalPred c cmp] by blast
  show "stable_unique_iterators [5, 5, 5, 5 :: int] 0 4 (<) (=) = [0]"
    by code_simp
qed


theorem stable_unique_iterators_edge_cases_witness:
  "(0 :: nat) < length [7 :: int] \<and>
   stable_unique_iterators [7 :: int] 0 (0 + 1) (<) (=) = [0] \<and>
   consistent ((<) :: int \<Rightarrow> int \<Rightarrow> bool) (=) \<and> (0 :: nat) < 4 \<and>
   4 \<le> length [5, 5, 5, 5 :: int] \<and>
   stable_unique_iterators [5, 5, 5, 5 :: int] 0 4 (<) (=) = [0] \<and>
   (0 :: nat) \<le> 4 \<and> 4 \<le> length [1, 2, 3, 4 :: int] \<and>
   stable_unique_iterators [1, 2, 3, 4 :: int] 0 4 (<) (=) = [0..<4]"
proof -
  have a1: "(0 :: nat) < length [7 :: int]" by simp
  have b1: "consistent ((<) :: int \<Rightarrow> int \<Rightarrow> bool) (=)" by (rule consistent_linorder)
  have b2: "(0 :: nat) < 4" by simp
  have b3: "4 \<le> length [5, 5, 5, 5 :: int]" by simp
  have b4: "\<forall>i\<in>{0..<4}. \<forall>j\<in>{0..<4}. [5, 5, 5, 5 :: int] ! i = [5, 5, 5, 5 :: int] ! j"
    by code_simp
  have c1: "(0 :: nat) \<le> 4" by simp
  have c2: "4 \<le> length [1, 2, 3, 4 :: int]" by simp
  have c3: "\<forall>i\<in>{0..<4}. \<forall>j\<in>{0..<4}. i \<noteq> j \<longrightarrow> [1, 2, 3, 4 :: int] ! i \<noteq> [1, 2, 3, 4 :: int] ! j"
    by code_simp
  have a: "stable_unique_iterators [7 :: int] 0 (0 + 1) (<) (=) = [0]"
    by (rule stable_unique_iterators_edge_cases
          [of "[7 :: int]" 0 "(<)" "(=)" 1, THEN conjunct2, THEN conjunct1, THEN mp, OF a1])
  have b: "stable_unique_iterators [5, 5, 5, 5 :: int] 0 4 (<) (=) = [0]"
  proof -
    from b1 b2 b3 b4 have "consistent ((<) :: int \<Rightarrow> int \<Rightarrow> bool) (=) \<and> (0 :: nat) < 4 \<and>
        4 \<le> length [5, 5, 5, 5 :: int] \<and>
        (\<forall>i\<in>{0..<4}. \<forall>j\<in>{0..<4}. [5, 5, 5, 5 :: int] ! i = [5, 5, 5, 5 :: int] ! j)"
      by (intro conjI)
    then show ?thesis
      by (rule stable_unique_iterators_edge_cases
            [of "[5, 5, 5, 5 :: int]" 0 "(<)" "(=)" 4,
             THEN conjunct2, THEN conjunct2, THEN conjunct1, THEN mp])
  qed
  have c: "stable_unique_iterators [1, 2, 3, 4 :: int] 0 4 (<) (=) = [0..<4]"
  proof -
    from c1 c2 c3 have "(0 :: nat) \<le> 4 \<and> 4 \<le> length [1, 2, 3, 4 :: int] \<and>
        (\<forall>i\<in>{0..<4}. \<forall>j\<in>{0..<4}. i \<noteq> j \<longrightarrow> [1, 2, 3, 4 :: int] ! i \<noteq> [1, 2, 3, 4 :: int] ! j)"
      by (intro conjI)
    then show ?thesis
      by (rule stable_unique_iterators_edge_cases
            [of "[1, 2, 3, 4 :: int]" 0 "(<)" "(=)" 4,
             THEN conjunct2, THEN conjunct2, THEN conjunct2, THEN conjunct1, THEN mp])
  qed
  from a1 a b1 b2 b3 b c1 c2 c show ?thesis by (intro conjI)
qed

text \<open>
  C8. For a valid range of \<open>N\<close> positions and consistent predicates,
  \<open>stable_unique_iterators\<close> returns at most \<open>N\<close> markers, and exactly \<open>N\<close> if and only
  if no two positions of the range hold equal elements.
\<close>

theorem stable_unique_iterators_size_bound:
  assumes con: "consistent cmp equalPred" and "b \<le> e" and "e \<le> length c"
  shows "length (stable_unique_iterators c b e cmp equalPred) \<le> e - b \<and>
         (length (stable_unique_iterators c b e cmp equalPred) = e - b \<longleftrightarrow>
            (\<forall>i\<in>{b..<e}. \<forall>j\<in>{b..<e}. i \<noteq> j \<longrightarrow> \<not> equalPred (c ! i) (c ! j)))"
proof (intro conjI iffI)
  show "length (stable_unique_iterators c b e cmp equalPred) \<le> e - b"
    by (rule stable_unique_iterators_length)
  show "\<forall>i\<in>{b..<e}. \<forall>j\<in>{b..<e}. i \<noteq> j \<longrightarrow> \<not> equalPred (c ! i) (c ! j)"
    if "length (stable_unique_iterators c b e cmp equalPred) = e - b"
    using stable_unique_iterators_full_length [OF con that] by blast
  show "length (stable_unique_iterators c b e cmp equalPred) = e - b"
    if "\<forall>i\<in>{b..<e}. \<forall>j\<in>{b..<e}. i \<noteq> j \<longrightarrow> \<not> equalPred (c ! i) (c ! j)"
    using stable_unique_iterators_no_duplicates [OF that, of cmp] by simp
qed

theorem stable_unique_iterators_size_bound_witness:
  "consistent ((<) :: int \<Rightarrow> int \<Rightarrow> bool) (=) \<and> (0 :: nat) \<le> 5 \<and>
   5 \<le> length [3, 1, 2, 1, 3 :: int] \<and>
   length (stable_unique_iterators [3, 1, 2, 1, 3 :: int] 0 5 (<) (=)) \<le> 5 - 0 \<and>
   length (stable_unique_iterators [3, 1, 2, 1, 3 :: int] 0 5 (<) (=)) = 3 \<and>
   (0 :: nat) \<le> 4 \<and> 4 \<le> length [1, 2, 3, 4 :: int] \<and>
   length (stable_unique_iterators [1, 2, 3, 4 :: int] 0 4 (<) (=)) = 4 - 0"
proof -
  have h1: "consistent ((<) :: int \<Rightarrow> int \<Rightarrow> bool) (=)" by (rule consistent_linorder)
  have a2: "(0 :: nat) \<le> 5" by simp
  have a3: "5 \<le> length [3, 1, 2, 1, 3 :: int]" by simp
  have c2: "(0 :: nat) \<le> 4" by simp
  have c3: "4 \<le> length [1, 2, 3, 4 :: int]" by simp
  have nd: "\<forall>i\<in>{0..<4}. \<forall>j\<in>{0..<4}. i \<noteq> j \<longrightarrow> [1, 2, 3, 4 :: int] ! i \<noteq> [1, 2, 3, 4 :: int] ! j"
    by code_simp
  have ev: "length (stable_unique_iterators [3, 1, 2, 1, 3 :: int] 0 5 (<) (=)) = 3"
    by code_simp
  have a: "length (stable_unique_iterators [3, 1, 2, 1, 3 :: int] 0 5 (<) (=)) \<le> 5 - 0"
    using stable_unique_iterators_size_bound [OF h1 a2 a3] by (rule conjunct1)
  have "length (stable_unique_iterators [1, 2, 3, 4 :: int] 0 4 (<) (=)) = 4 - 0 \<longleftrightarrow>
          (\<forall>i\<in>{0..<4}. \<forall>j\<in>{0..<4}. i \<noteq> j \<longrightarrow> [1, 2, 3, 4 :: int] ! i \<noteq> [1, 2, 3, 4 :: int] ! j)"
    using stable_unique_iterators_size_bound [OF h1 c2 c3] by (rule conjunct2)
  from this nd have c: "length (stable_unique_iterators [1, 2, 3, 4 :: int] 0 4 (<) (=)) = 4 - 0"
    by (rule iffD2)
  from h1 a2 a3 a ev c2 c3 c show ?thesis by (intro conjI)
qed

text \<open>
  C10. For a valid range, consistent predicates and any sorting algorithm that meets the
  postcondition of \<open>std::sort\<close>, \<open>stable_unique_iterators\<close> and
  \<open>unstable_unique_iterators\<close> return the same number of markers, and the markers of
  both refer to the same multiset of equivalence classes, each class once. The markers
  themselves can differ: on \<open>[1,1,2]\<close> the stable result is 0, 2 and an unstable one is
  1, 2.
\<close>

theorem stable_unstable_same_classes:
  assumes spec: "std_sort_spec srt" and con: "consistent cmp equalPred"
    and "b \<le> e" and "e \<le> length c"
  shows "length (stable_unique_iterators c b e cmp equalPred)
           = length (unstable_unique_iterators srt c b e cmp equalPred) \<and>
         image_mset (eq_class c b e equalPred) (mset (stable_unique_iterators c b e cmp equalPred))
           = image_mset (eq_class c b e equalPred)
               (mset (unstable_unique_iterators srt c b e cmp equalPred)) \<and>
         image_mset (eq_class c b e equalPred) (mset (stable_unique_iterators c b e cmp equalPred))
           = mset_set (eq_classes c b e equalPred)"
proof -
  let ?s = "stable_unique_iterators c b e cmp equalPred"
  let ?u = "unstable_unique_iterators srt c b e cmp equalPred"
  have ds: "distinct ?s"
    using stable_unique_iterators_ascending [of c b e cmp equalPred] by (simp add: strict_sorted_iff)
  have du: "distinct ?u"
    using unstable_unique_iterators_ascending [OF spec con, of c b e] by (simp add: strict_sorted_iff)
  have s: "image_mset (eq_class c b e equalPred) (mset ?s) = mset_set (eq_classes c b e equalPred)"
    "length ?s = card (eq_classes c b e equalPred)"
  proof -
    have cov: "\<exists>q\<in>set ?s. equalPred (c ! q) (c ! i)" if "i \<in> {b..<e}" for i
      using stable_unique_iterators_cover [OF con that] .
    have ineq: "x = y" if "x \<in> set ?s" "y \<in> set ?s" "equalPred (c ! x) (c ! y)" for x y
      using stable_unique_iterators_inequivalent [OF con that] .
    note r = one_per_class [OF con ds stable_unique_iterators_subset cov ineq]
    show "image_mset (eq_class c b e equalPred) (mset ?s) = mset_set (eq_classes c b e equalPred)"
      by (rule r(1))
    show "length ?s = card (eq_classes c b e equalPred)" by (rule r(2))
  qed
  have u: "image_mset (eq_class c b e equalPred) (mset ?u) = mset_set (eq_classes c b e equalPred)"
    "length ?u = card (eq_classes c b e equalPred)"
  proof -
    have cov: "\<exists>q\<in>set ?u. equalPred (c ! q) (c ! i)" if "i \<in> {b..<e}" for i
      using unstable_unique_iterators_cover [OF spec con that] .
    have ineq: "x = y" if "x \<in> set ?u" "y \<in> set ?u" "equalPred (c ! x) (c ! y)" for x y
      using unstable_unique_iterators_inequivalent [OF spec con that] .
    note r = one_per_class [OF con du unstable_unique_iterators_subset [OF spec con] cov ineq]
    show "image_mset (eq_class c b e equalPred) (mset ?u) = mset_set (eq_classes c b e equalPred)"
      by (rule r(1))
    show "length ?u = card (eq_classes c b e equalPred)" by (rule r(2))
  qed
  from s u show ?thesis by simp
qed

theorem stable_unstable_same_classes_witness:
  "std_sort_spec (reversing_sort :: (nat \<Rightarrow> nat \<Rightarrow> bool) \<Rightarrow> nat list \<Rightarrow> nat list) \<and>
   consistent ((<) :: int \<Rightarrow> int \<Rightarrow> bool) (=) \<and> (0 :: nat) \<le> 3 \<and>
   3 \<le> length [1, 1, 2 :: int] \<and>
   length (stable_unique_iterators [1, 1, 2 :: int] 0 3 (<) (=))
     = length (unstable_unique_iterators reversing_sort [1, 1, 2 :: int] 0 3 (<) (=)) \<and>
   image_mset (eq_class [1, 1, 2 :: int] 0 3 (=)) (mset (stable_unique_iterators [1, 1, 2 :: int] 0 3 (<) (=)))
     = image_mset (eq_class [1, 1, 2 :: int] 0 3 (=))
         (mset (unstable_unique_iterators reversing_sort [1, 1, 2 :: int] 0 3 (<) (=))) \<and>
   stable_unique_iterators [1, 1, 2 :: int] 0 3 (<) (=) = [0, 2] \<and>
   unstable_unique_iterators reversing_sort [1, 1, 2 :: int] 0 3 (<) (=) = [1, 2]"
proof -
  have h0: "std_sort_spec (reversing_sort :: (nat \<Rightarrow> nat \<Rightarrow> bool) \<Rightarrow> nat list \<Rightarrow> nat list)"
    by (rule reversing_sort_spec)
  have h1: "consistent ((<) :: int \<Rightarrow> int \<Rightarrow> bool) (=)" by (rule consistent_linorder)
  have h2: "(0 :: nat) \<le> 3" by simp
  have h3: "3 \<le> length [1, 1, 2 :: int]" by simp
  have e1: "stable_unique_iterators [1, 1, 2 :: int] 0 3 (<) (=) = [0, 2]" by code_simp
  have e2: "unstable_unique_iterators reversing_sort [1, 1, 2 :: int] 0 3 (<) (=) = [1, 2]"
    by code_simp
  note T = stable_unstable_same_classes [OF h0 h1 h2 h3]
  from h0 h1 h2 h3 T [THEN conjunct1] T [THEN conjunct2, THEN conjunct1] e1 e2
  show ?thesis by (intro conjI)
qed

end
